theory Spec2Isabelle
  imports Main "HOL-Library.Word" "HOL-Library.List_Lexorder"
begin

section \<open>Data model\<close>

text \<open>
  A Go \<^verbatim>\<open>string\<close> is an immutable sequence of bytes and \<^verbatim>\<open>[]byte(s)\<close>
  copies those bytes unchanged, so a key and a byte slice are both lists of bytes.
  \<^verbatim>\<open>s[i]\<close> is the \<open>i\<close>-th byte, \<^verbatim>\<open><\<close> on strings is the
  lexicographic order of the unsigned bytes (the order of \<open>HOL-Library.List_Lexorder\<close>
  over the unsigned order of \<open>8 word\<close>).
\<close>

type_synonym byte = "8 word"
type_synonym uint32 = "32 word"
type_synonym key = "byte list"

text \<open>The run-time panics of the Go code, and a loop that never ends.\<close>

datatype error = IndexOutOfRange | SliceBoundsOutOfRange | MakeSliceCapOutOfRange | Diverges

text \<open>\<^verbatim>\<open>byteValue[T]\<close>; the field \<^verbatim>\<open>value\<close> is \<open>bvalue\<close> here.\<close>

record 'v byteValue =
  nextLo :: uint32
  nextLen :: byte
  nextOffset :: byte
  valid :: bool
  bvalue :: 'v

text \<open>The zero value \<^verbatim>\<open>byteValue[T]{}\<close>; \<open>0\<close> is the zero value of \<^verbatim>\<open>T\<close>.\<close>

definition zeroByteValue :: "'v::zero byteValue" where
  "zeroByteValue = \<lparr>nextLo = 0, nextLen = 0, nextOffset = 0, valid = False, bvalue = 0\<rparr>"

text \<open>\<^verbatim>\<open>Map[K, T]\<close>: the flat array of nodes, the root at index 0.\<close>

record 'v Map =
  store :: "'v byteValue list"

text \<open>
  \<^verbatim>\<open>byteValueSlice[T]\<close>. The field \<^verbatim>\<open>next\<close> is a slice of the derived
  array itself: the pair (first index, length) of the range of the shared array it views.
\<close>

record 'v byteValueSlice =
  "next" :: "nat \<times> nat"
  nextOffsetS :: byte
  validS :: bool
  valueS :: 'v

definition zeroByteValueSlice :: "'v::zero byteValueSlice" where
  "zeroByteValueSlice = \<lparr>next = (0, 0), nextOffsetS = 0, validS = False, valueS = 0\<rparr>"

record 'v MapFaster =
  storeS :: "'v byteValueSlice list"

text \<open>\<^verbatim>\<open>Source[K, T]\<close>: the two methods of the interface.\<close>

record 'v Source =
  AppendKeys :: "key list \<Rightarrow> key list"
  Get :: "key \<Rightarrow> 'v"

section \<open>Lookup on the flat array\<close>

text \<open>
  \<^verbatim>\<open>Map.LookupString\<close>. The pointer \<^verbatim>\<open>bv\<close> into \<^verbatim>\<open>m.store\<close> is the
  index \<open>bv\<close>; \<^verbatim>\<open>m.store[j]\<close> panics when \<open>j\<close> is not below the length.
  \<^verbatim>\<open>bv.nextLo+uint32(ni)\<close> is a 32-bit sum.
\<close>

function LookupString_loop ::
    "'v::zero byteValue list \<Rightarrow> key \<Rightarrow> nat \<Rightarrow> nat \<Rightarrow> error + ('v \<times> bool)" where
  "LookupString_loop st s i bv =
     (if i < length s then
        (let b = s ! i in
         if b < nextOffset (st ! bv) then Inr (0, False)
         else
           (let ni = b - nextOffset (st ! bv) in
            if ni \<ge> nextLen (st ! bv) then Inr (0, False)
            else
              (let j = unat (nextLo (st ! bv) + ucast ni) in
               if j < length st then LookupString_loop st s (i + 1) j
               else Inl IndexOutOfRange)))
      else Inr (bvalue (st ! bv), valid (st ! bv)))"
  by pat_completeness auto
termination
  by (relation "measure (\<lambda>(st, s, i, bv). length s - i)") auto

definition LookupString :: "'v::zero Map \<Rightarrow> key \<Rightarrow> error + ('v \<times> bool)" where
  "LookupString m s =
     (if 0 < length (store m) then LookupString_loop (store m) s 0 0
      else Inl IndexOutOfRange)"

text \<open>\<^verbatim>\<open>Map.LookupBytes\<close>: the same loop over a byte slice.\<close>

function LookupBytes_loop ::
    "'v::zero byteValue list \<Rightarrow> byte list \<Rightarrow> nat \<Rightarrow> nat \<Rightarrow> error + ('v \<times> bool)" where
  "LookupBytes_loop st s i bv =
     (if i < length s then
        (let b = s ! i in
         if b < nextOffset (st ! bv) then Inr (0, False)
         else
           (let ni = b - nextOffset (st ! bv) in
            if ni \<ge> nextLen (st ! bv) then Inr (0, False)
            else
              (let j = unat (nextLo (st ! bv) + ucast ni) in
               if j < length st then LookupBytes_loop st s (i + 1) j
               else Inl IndexOutOfRange)))
      else Inr (bvalue (st ! bv), valid (st ! bv)))"
  by pat_completeness auto
termination
  by (relation "measure (\<lambda>(st, s, i, bv). length s - i)") auto

definition LookupBytes :: "'v::zero Map \<Rightarrow> byte list \<Rightarrow> error + ('v \<times> bool)" where
  "LookupBytes m s =
     (if 0 < length (store m) then LookupBytes_loop (store m) s 0 0
      else Inl IndexOutOfRange)"

text \<open>
  \<^verbatim>\<open>Uint32Store\<close> is the same array with \<^verbatim>\<open>uint32\<close> values. Its code does not
  depend on the value type: it is modelled for any value type and used at \<open>uint32\<close>.
  \<^verbatim>\<open>Uint32Store.LookupString\<close> indexes the string as \<^verbatim>\<open>Map.LookupString\<close> does;
  \<^verbatim>\<open>Uint32Store.LookupBytes\<close> ranges over the bytes instead: structural recursion
  on the rest of the slice.
\<close>

type_synonym 'v Uint32Store = "'v Map"

function Uint32Store_LookupString_loop ::
    "'v::zero byteValue list \<Rightarrow> key \<Rightarrow> nat \<Rightarrow> nat \<Rightarrow> error + ('v \<times> bool)" where
  "Uint32Store_LookupString_loop st s i bv =
     (if i < length s then
        (let b = s ! i in
         if b < nextOffset (st ! bv) then Inr (0, False)
         else
           (let ni = b - nextOffset (st ! bv) in
            if ni \<ge> nextLen (st ! bv) then Inr (0, False)
            else
              (let j = unat (nextLo (st ! bv) + ucast ni) in
               if j < length st then Uint32Store_LookupString_loop st s (i + 1) j
               else Inl IndexOutOfRange)))
      else Inr (bvalue (st ! bv), valid (st ! bv)))"
  by pat_completeness auto
termination
  by (relation "measure (\<lambda>(st, s, i, bv). length s - i)") auto

definition Uint32Store_LookupString :: "'v::zero Uint32Store \<Rightarrow> key \<Rightarrow> error + ('v \<times> bool)" where
  "Uint32Store_LookupString m s =
     (if 0 < length (store m) then Uint32Store_LookupString_loop (store m) s 0 0
      else Inl IndexOutOfRange)"

fun Uint32Store_LookupBytes_loop ::
    "'v::zero byteValue list \<Rightarrow> byte list \<Rightarrow> nat \<Rightarrow> error + ('v \<times> bool)" where
  "Uint32Store_LookupBytes_loop st [] bv = Inr (bvalue (st ! bv), valid (st ! bv))"
| "Uint32Store_LookupBytes_loop st (b # s) bv =
     (if b < nextOffset (st ! bv) then Inr (0, False)
      else
        (let ni = b - nextOffset (st ! bv) in
         if ni \<ge> nextLen (st ! bv) then Inr (0, False)
         else
           (let j = unat (nextLo (st ! bv) + ucast ni) in
            if j < length st then Uint32Store_LookupBytes_loop st s j
            else Inl IndexOutOfRange)))"

definition Uint32Store_LookupBytes :: "'v::zero Uint32Store \<Rightarrow> byte list \<Rightarrow> error + ('v \<times> bool)" where
  "Uint32Store_LookupBytes m s =
     (if 0 < length (store m) then Uint32Store_LookupBytes_loop (store m) s 0
      else Inl IndexOutOfRange)"

section \<open>Lookup on the derived array\<close>

text \<open>
  \<^verbatim>\<open>MapFaster.LookupString\<close>. \<^verbatim>\<open>ni\<close> is an \<^verbatim>\<open>int\<close> compared with
  \<^verbatim>\<open>len(bv.next)\<close>; \<^verbatim>\<open>&bv.next[ni]\<close> is element \<open>ni\<close> of the viewed range.
\<close>

function MapFaster_LookupString_loop ::
    "'v::zero byteValueSlice list \<Rightarrow> key \<Rightarrow> nat \<Rightarrow> nat \<Rightarrow> error + ('v \<times> bool)" where
  "MapFaster_LookupString_loop st s i bv =
     (if i < length s then
        (let b = s ! i in
         if b < nextOffsetS (st ! bv) then Inr (0, False)
         else
           (let ni = unat (b - nextOffsetS (st ! bv)) in
            if ni \<ge> snd (next (st ! bv)) then Inr (0, False)
            else MapFaster_LookupString_loop st s (i + 1) (fst (next (st ! bv)) + ni)))
      else Inr (valueS (st ! bv), validS (st ! bv)))"
  by pat_completeness auto
termination
  by (relation "measure (\<lambda>(st, s, i, bv). length s - i)") auto

definition MapFaster_LookupString :: "'v::zero MapFaster \<Rightarrow> key \<Rightarrow> error + ('v \<times> bool)" where
  "MapFaster_LookupString m s =
     (if 0 < length (storeS m) then MapFaster_LookupString_loop (storeS m) s 0 0
      else Inl IndexOutOfRange)"

function MapFaster_LookupBytes_loop ::
    "'v::zero byteValueSlice list \<Rightarrow> byte list \<Rightarrow> nat \<Rightarrow> nat \<Rightarrow> error + ('v \<times> bool)" where
  "MapFaster_LookupBytes_loop st s i bv =
     (if i < length s then
        (let b = s ! i in
         if b < nextOffsetS (st ! bv) then Inr (0, False)
         else
           (let ni = unat (b - nextOffsetS (st ! bv)) in
            if ni \<ge> snd (next (st ! bv)) then Inr (0, False)
            else MapFaster_LookupBytes_loop st s (i + 1) (fst (next (st ! bv)) + ni)))
      else Inr (valueS (st ! bv), validS (st ! bv)))"
  by pat_completeness auto
termination
  by (relation "measure (\<lambda>(st, s, i, bv). length s - i)") auto

definition MapFaster_LookupBytes :: "'v::zero MapFaster \<Rightarrow> byte list \<Rightarrow> error + ('v \<times> bool)" where
  "MapFaster_LookupBytes m s =
     (if 0 < length (storeS m) then MapFaster_LookupBytes_loop (storeS m) s 0 0
      else Inl IndexOutOfRange)"

text \<open>
  \<^verbatim>\<open>NewMapFaster\<close>. The slice expression \<^verbatim>\<open>m.store[lo:hi]\<close> panics unless
  \<open>lo \<le> hi \<le> cap(m.store)\<close>, and the capacity is the length here;
  \<^verbatim>\<open>sv.nextLo+uint32(sv.nextLen)\<close> is a 32-bit sum.
\<close>

function NewMapFaster_loop ::
    "'v::zero byteValue list \<Rightarrow> nat \<Rightarrow> 'v byteValueSlice list \<Rightarrow> error + 'v byteValueSlice list" where
  "NewMapFaster_loop src i ds =
     (if i < length src then
        (let sv = src ! i;
             lo = unat (nextLo sv);
             hi = unat (nextLo sv + ucast (nextLen sv)) in
         if lo \<le> hi \<and> hi \<le> length ds then
           NewMapFaster_loop src (i + 1)
             (ds[i := \<lparr>next = (lo, hi - lo), nextOffsetS = nextOffset sv,
                       validS = valid sv, valueS = bvalue sv\<rparr>])
         else Inl SliceBoundsOutOfRange)
      else Inr ds)"
  by pat_completeness auto
termination
  by (relation "measure (\<lambda>(src, i, ds). length src - i)") auto

definition NewMapFaster :: "'v::zero Map \<Rightarrow> error + 'v MapFaster" where
  "NewMapFaster srcMap =
     (case NewMapFaster_loop (store srcMap) 0 (replicate (length (store srcMap)) zeroByteValueSlice) of
        Inl e \<Rightarrow> Inl e
      | Inr ds \<Rightarrow> Inr \<lparr>storeS = ds\<rparr>)"

section \<open>Construction in blocks\<close>

text \<open>
  A block is one slice of \<^verbatim>\<open>builder.all\<close>: its elements (as many as its length)
  and its capacity. Every block has its own backing array, which \<^verbatim>\<open>make\<close> fills with
  zero values up to the capacity.
\<close>

record 'v block =
  elems :: "'v byteValue list"
  cap :: nat

text \<open>\<^verbatim>\<open>builder[K, T]\<close>; \<^verbatim>\<open>int\<close> is taken as unbounded.\<close>

record 'v builder =
  all :: "'v block list"
  src :: "'v Source"
  len :: nat

text \<open>
  A \<^verbatim>\<open>*byteValue[T]\<close> into a block is (block number, position); the slice
  \<^verbatim>\<open>next\<close> returned by \<^verbatim>\<open>alloc\<close> is (block number, first position, length).
\<close>

type_synonym ptr = "nat \<times> nat"
type_synonym bslice = "nat \<times> nat \<times> nat"

definition deref :: "'v builder \<Rightarrow> ptr \<Rightarrow> 'v byteValue" where
  "deref b p = elems (all b ! fst p) ! snd p"

definition assign :: "'v builder \<Rightarrow> ptr \<Rightarrow> 'v byteValue \<Rightarrow> 'v builder" where
  "assign b p v = b\<lparr>all := (all b)[fst p := (all b ! fst p)\<lparr>elems := (elems (all b ! fst p))[snd p := v]\<rparr>]\<rparr>"

definition maxBuildBufSize :: nat where
  "maxBuildBufSize = 2 ^ 20"

text \<open>\<^verbatim>\<open>firstBufSize\<close>: the loop doubles \<^verbatim>\<open>size\<close>, starting from \<open>1 << 4\<close>.\<close>

function firstBufSize_loop :: "nat \<Rightarrow> nat \<Rightarrow> nat" where
  "firstBufSize_loop mapSize sz =
     (if sz < mapSize \<and> sz < maxBuildBufSize \<and> 0 < sz
      then firstBufSize_loop mapSize (2 * sz) else sz)"
  by pat_completeness auto
termination
  by (relation "measure (\<lambda>(mapSize, sz). maxBuildBufSize - sz)") auto

definition firstBufSize :: "nat \<Rightarrow> nat" where
  "firstBufSize mapSize = firstBufSize_loop mapSize (2 ^ 4)"

text \<open>
  The loop \<^verbatim>\<open>for newCap < n { newCap *= 2 }\<close> of \<^verbatim>\<open>alloc\<close>. From \<open>newCap = 0\<close>
  it would never end: \<open>None\<close>.
\<close>

function newCap_loop :: "nat \<Rightarrow> nat \<Rightarrow> nat option" where
  "newCap_loop n newCap =
     (if newCap < n then (if newCap = 0 then None else newCap_loop n (newCap * 2))
      else Some newCap)"
  by pat_completeness auto
termination
  by (relation "measure (\<lambda>(n, newCap). n - newCap)") auto

text \<open>
  \<^verbatim>\<open>builder.alloc\<close>. Reslicing the current block to \<open>curLen + n\<close> uncovers \<open>n\<close>
  elements of its backing array, which are still zero values.
\<close>

definition alloc :: "'v::zero builder \<Rightarrow> byte \<Rightarrow> error + ('v builder \<times> bslice)" where
  "alloc b nByteValues =
     (let n = unat nByteValues;
          b1 = b\<lparr>len := len b + n\<rparr> in
      if all b = [] then Inl IndexOutOfRange
      else
        (let cur = last (all b);
             curCap = cap cur;
             curLen = length (elems cur) in
         if int curCap - int curLen \<ge> int n then
           Inr (b1\<lparr>all := butlast (all b) @ [cur\<lparr>elems := elems cur @ replicate n zeroByteValue\<rparr>]\<rparr>,
                (length (all b) - 1, curLen, n))
         else
           (case newCap_loop n (curCap * 2) of
              None \<Rightarrow> Inl Diverges
            | Some newCap1 \<Rightarrow>
                (let newCap = (if newCap1 > maxBuildBufSize then maxBuildBufSize else newCap1) in
                 if n > newCap then Inl MakeSliceCapOutOfRange
                 else Inr (b1\<lparr>all := all b @ [\<lparr>elems = replicate n zeroByteValue, cap = newCap\<rparr>]\<rparr>,
                           (length (all b), 0, n))))))"

text \<open>
  The inner loop of \<^verbatim>\<open>makeByteValue\<close> that finds the end of the run of strings
  with the same byte at \<open>byteIndex\<close>. \<^verbatim>\<open>a[j][byteIndex]\<close> panics on a string
  that is too short.
\<close>

function sameByteHi :: "key list \<Rightarrow> nat \<Rightarrow> nat \<Rightarrow> nat \<Rightarrow> error + nat" where
  "sameByteHi a byteIndex i iSameByteHi =
     (if iSameByteHi < length a then
        (if \<not> byteIndex < length (a ! iSameByteHi) \<or> \<not> byteIndex < length (a ! i)
         then Inl IndexOutOfRange
         else if a ! iSameByteHi ! byteIndex = a ! i ! byteIndex
         then sameByteHi a byteIndex i (iSameByteHi + 1)
         else Inr iSameByteHi)
      else Inr iSameByteHi)"
  by pat_completeness auto
termination
  by (relation "measure (\<lambda>(a, byteIndex, i, iSameByteHi). length a - iSameByteHi)") auto

lemma sameByteHi_gt: "sameByteHi a byteIndex i h = Inr hi \<Longrightarrow> h \<le> hi"
proof (induction a byteIndex i h rule: sameByteHi.induct)
  case (1 a byteIndex i h)
  from "1.prems" show ?case
    using "1.IH" by (subst (asm) sameByteHi.simps) (auto split: if_splits)
qed

text \<open>The longest string of a slice bounds the depth of the recursion.\<close>

definition maxLen :: "key list \<Rightarrow> nat" where
  "maxLen a = foldr (\<lambda>k m. max (length k) m) a 0"

lemma maxLen_ge: "k \<in> set a \<Longrightarrow> length k \<le> maxLen a"
  by (induction a) (auto simp: maxLen_def)

lemma maxLen_mono: "set a \<subseteq> set a' \<Longrightarrow> maxLen a \<le> maxLen a'"
proof (induction a)
  case Nil
  then show ?case by (simp add: maxLen_def)
next
  case (Cons k a)
  then have "length k \<le> maxLen a'" "maxLen a \<le> maxLen a'"
    by (auto intro: maxLen_ge)
  then show ?case by (simp add: maxLen_def)
qed

text \<open>
  \<^verbatim>\<open>builder.makeByteValue\<close> and its outer loop. \<^verbatim>\<open>a[0]\<close> panics on an empty
  slice, \<^verbatim>\<open>a[0][byteIndex]\<close> on a short string, \<^verbatim>\<open>next[j]\<close> when \<open>j\<close> is not
  below the length of \<^verbatim>\<open>next\<close>. \<^verbatim>\<open>uint32(b.len)\<close> keeps the low 32 bits.
\<close>

function makeByteValue ::
    "'v::zero builder \<Rightarrow> ptr \<Rightarrow> key list \<Rightarrow> nat \<Rightarrow> error + 'v builder"
  and makeByteValue_loop ::
    "'v::zero builder \<Rightarrow> bslice \<Rightarrow> byte \<Rightarrow> key list \<Rightarrow> nat \<Rightarrow> nat \<Rightarrow> error + 'v builder" where
  "makeByteValue b bv a byteIndex =
     (if a = [] then Inl IndexOutOfRange
      else
        (let (b1, a1) =
               (if length (a ! 0) = byteIndex
                then (assign b bv ((deref b bv)\<lparr>valid := True, bvalue := Get (src b) (a ! 0)\<rparr>), tl a)
                else (b, a)) in
         if length a1 = 0 then Inr b1
         else if \<not> byteIndex < length (a1 ! 0) \<or> \<not> byteIndex < length (a1 ! (length a1 - 1))
         then Inl IndexOutOfRange
         else
           (let off = a1 ! 0 ! byteIndex;
                n = a1 ! (length a1 - 1) ! byteIndex - off + 1;
                b2 = assign b1 bv ((deref b1 bv)\<lparr>nextOffset := off, nextLen := n,
                                                    nextLo := of_nat (len b1)\<rparr>) in
            case alloc b2 n of
              Inl e \<Rightarrow> Inl e
            | Inr (b3, nxt) \<Rightarrow> makeByteValue_loop b3 nxt off a1 byteIndex 0)))"
| "makeByteValue_loop b nxt off a byteIndex i =
     (if i < length a then
        (if \<not> byteIndex < length (a ! i) then Inl IndexOutOfRange
         else
           (case sameByteHi a byteIndex i (i + 1) of
              Inl e \<Rightarrow> Inl e
            | Inr iSameByteHi \<Rightarrow>
                (let j = unat (a ! i ! byteIndex - off) in
                 if \<not> j < snd (snd nxt) then Inl IndexOutOfRange
                 else
                   (case makeByteValue b (fst nxt, fst (snd nxt) + j)
                           (take (iSameByteHi - i) (drop i a)) (byteIndex + 1) of
                      Inl e \<Rightarrow> Inl e
                    | Inr b' \<Rightarrow> makeByteValue_loop b' nxt off a byteIndex iSameByteHi))))
      else Inr b)"
  by pat_completeness auto
termination
proof (relation "inv_image (less_than <*lex*> less_than <*lex*> less_than)
    (\<lambda>x. case x of
       Inl (b, bv, a, byteIndex) \<Rightarrow> (maxLen a - byteIndex, 1::nat, 0::nat)
     | Inr (b, nxt, off, a, byteIndex, i) \<Rightarrow> (maxLen a - byteIndex, 0, length a - i))", goal_cases)
  case 1
  show ?case by (intro wf_inv_image wf_lex_prod wf_less_than)
next
  case (2 b bv a byteIndex x xa y off n b2 xb xc ya)
  then have "set y \<subseteq> set a"
    by (auto split: if_splits dest: list.set_sel(2))
  from maxLen_mono [OF this] show ?case
    by (cases "maxLen y - byteIndex = maxLen a - byteIndex") auto
next
  case (3 b nxt off a byteIndex i x2 j)
  have sub: "set (take (x2 - i) (drop i a)) \<subseteq> set a"
    by (meson in_set_dropD in_set_takeD subsetI)
  have "a ! i \<in> set a"
    using 3 by simp
  then have "byteIndex < maxLen a"
    using 3 maxLen_ge [of "a ! i" a] by simp
  with maxLen_mono [OF sub] show ?case by simp
next
  case (4 b nxt off a byteIndex i x2 j x2a)
  from sameByteHi_gt [OF 4(3)] 4(1) show ?case by simp
qed

text \<open>\<^verbatim>\<open>build\<close>: the blocks are copied one after the other into one slice.\<close>

definition build :: "key list \<Rightarrow> 'v::zero Source \<Rightarrow> error + 'v byteValue list" where
  "build keys srcMap =
     (let b = \<lparr>all = [\<lparr>elems = [zeroByteValue], cap = firstBufSize (length keys)\<rparr>],
               src = srcMap, len = 1\<rparr> in
      case makeByteValue b (0, 0) keys 0 of
        Inl e \<Rightarrow> Inl e
      | Inr b' \<Rightarrow> Inr (concat (map elems (all b'))))"

text \<open>
  \<^verbatim>\<open>NewMap\<close>. \<^verbatim>\<open>sort.Slice\<close> with \<^verbatim>\<open>keys[i] < keys[j]\<close> leaves the keys in
  ascending order; equal strings are indistinguishable, so the result is the sorted list.
\<close>

definition NewMap :: "'v::zero Source \<Rightarrow> error + 'v Map" where
  "NewMap srcMap =
     (let keys = AppendKeys srcMap [] in
      if length keys > 0 then
        (case build (sort keys) srcMap of
           Inl e \<Rightarrow> Inl e
         | Inr s \<Rightarrow> Inr \<lparr>store = s\<rparr>)
      else Inr \<lparr>store = [zeroByteValue]\<rparr>)"

section \<open>Construction by appending to one array\<close>

text \<open>
  \<^verbatim>\<open>Uint32Store.makeByteValue\<close> and its outer loop. The pointer \<^verbatim>\<open>bv\<close> into
  \<^verbatim>\<open>m.store\<close> is the index \<open>bv\<close>. After \<^verbatim>\<open>m.store = append(...)\<close> the
  pointer may be left on the old backing array, but it is only read from then on
  (\<^verbatim>\<open>bv.nextLo\<close>, \<^verbatim>\<open>bv.nextOffset\<close>), and the fields read were written before the
  append: the loop takes their values. \<^verbatim>\<open>&m.store[nextStoreIndex]\<close> panics when the
  index is not below the length.
\<close>

function Uint32Store_makeByteValue ::
    "'v::zero byteValue list \<Rightarrow> nat \<Rightarrow> key list \<Rightarrow> nat \<Rightarrow> 'v Source \<Rightarrow> error + 'v byteValue list"
  and Uint32Store_makeByteValue_loop ::
    "'v::zero byteValue list \<Rightarrow> uint32 \<Rightarrow> byte \<Rightarrow> key list \<Rightarrow> nat \<Rightarrow> 'v Source \<Rightarrow> nat
       \<Rightarrow> error + 'v byteValue list" where
  "Uint32Store_makeByteValue st bv a byteIndex srcMap =
     (if a = [] then Inl IndexOutOfRange
      else
        (let (st1, a1) =
               (if length (a ! 0) = byteIndex
                then (st[bv := (st ! bv)\<lparr>valid := True, bvalue := Get srcMap (a ! 0)\<rparr>], tl a)
                else (st, a)) in
         if length a1 = 0 then Inr st1
         else if \<not> byteIndex < length (a1 ! 0) \<or> \<not> byteIndex < length (a1 ! (length a1 - 1))
         then Inl IndexOutOfRange
         else
           (let off = a1 ! 0 ! byteIndex;
                n = a1 ! (length a1 - 1) ! byteIndex - off + 1;
                lo = (of_nat (length st1) :: uint32);
                st2 = st1[bv := (st1 ! bv)\<lparr>nextOffset := off, nextLen := n, nextLo := lo\<rparr>];
                st3 = st2 @ replicate (unat n) zeroByteValue in
            Uint32Store_makeByteValue_loop st3 lo off a1 byteIndex srcMap 0)))"
| "Uint32Store_makeByteValue_loop st lo off a byteIndex srcMap i =
     (if i < length a then
        (if \<not> byteIndex < length (a ! i) then Inl IndexOutOfRange
         else
           (case sameByteHi a byteIndex i (i + 1) of
              Inl e \<Rightarrow> Inl e
            | Inr iSameByteHi \<Rightarrow>
                (let nextStoreIndex = unat (lo + ucast (a ! i ! byteIndex - off)) in
                 if \<not> nextStoreIndex < length st then Inl IndexOutOfRange
                 else
                   (case Uint32Store_makeByteValue st nextStoreIndex
                           (take (iSameByteHi - i) (drop i a)) (byteIndex + 1) srcMap of
                      Inl e \<Rightarrow> Inl e
                    | Inr st' \<Rightarrow>
                        Uint32Store_makeByteValue_loop st' lo off a byteIndex srcMap iSameByteHi))))
      else Inr st)"
  by pat_completeness auto
termination
proof (relation "inv_image (less_than <*lex*> less_than <*lex*> less_than)
    (\<lambda>x. case x of
       Inl (st, bv, a, byteIndex, srcMap) \<Rightarrow> (maxLen a - byteIndex, 1::nat, 0::nat)
     | Inr (st, lo, off, a, byteIndex, srcMap, i) \<Rightarrow> (maxLen a - byteIndex, 0, length a - i))",
    goal_cases)
  case 1
  show ?case by (intro wf_inv_image wf_lex_prod wf_less_than)
next
  case (2 st bv a byteIndex srcMap x xa y off n lo st2 st3)
  then have "set y \<subseteq> set a"
    by (auto split: if_splits dest: list.set_sel(2))
  from maxLen_mono [OF this] show ?case
    by (cases "maxLen y - byteIndex = maxLen a - byteIndex") auto
next
  case (3 st lo off a byteIndex srcMap i x2 j)
  have sub: "set (take (x2 - i) (drop i a)) \<subseteq> set a"
    by (meson in_set_dropD in_set_takeD subsetI)
  have "a ! i \<in> set a"
    using 3 by simp
  then have "byteIndex < maxLen a"
    using 3 maxLen_ge [of "a ! i" a] by simp
  with maxLen_mono [OF sub] show ?case by simp
next
  case (4 st lo off a byteIndex srcMap i x2 j x2a)
  from sameByteHi_gt [OF 4(3)] 4(1) show ?case by simp
qed

text \<open>\<^verbatim>\<open>NewUint32Store\<close>; \<^verbatim>\<open>sort.Strings\<close> sorts in ascending order.\<close>

definition NewUint32Store :: "'v::zero Source \<Rightarrow> error + 'v Uint32Store" where
  "NewUint32Store srcMap =
     (let m = \<lparr>store = replicate 1 zeroByteValue\<rparr>;
          keys = AppendKeys srcMap [] in
      if length keys > 0 then
        (case Uint32Store_makeByteValue (store m) 0 (sort keys) 0 srcMap of
           Inl e \<Rightarrow> Inl e
         | Inr st \<Rightarrow> Inr (m\<lparr>store := st\<rparr>))
      else Inr m)"

declare Uint32Store_makeByteValue.simps [simp del] Uint32Store_makeByteValue_loop.simps [simp del]
  makeByteValue.simps [simp del] makeByteValue_loop.simps [simp del] sameByteHi.simps [simp del]

definition termStore :: "'v::zero byteValue list \<Rightarrow> nat \<Rightarrow> key list \<Rightarrow> nat \<Rightarrow> 'v Source \<Rightarrow> 'v byteValue list" where
  "termStore st g a d srcMap =
     (if length (hd a) = d then st[g := (st ! g)\<lparr>valid := True, bvalue := Get srcMap (hd a)\<rparr>] else st)"

definition restKeys :: "key list \<Rightarrow> nat \<Rightarrow> key list" where
  "restKeys a d = (if length (hd a) = d then tl a else a)"

definition spanLen :: "key list \<Rightarrow> nat \<Rightarrow> byte" where
  "spanLen a1 d = last a1 ! d - hd a1 ! d + 1"

definition linkStore :: "'v::zero byteValue list \<Rightarrow> nat \<Rightarrow> key list \<Rightarrow> nat \<Rightarrow> 'v byteValue list" where
  "linkStore st1 g a1 d =
     st1[g := (st1 ! g)\<lparr>nextOffset := hd a1 ! d, nextLen := spanLen a1 d,
                         nextLo := of_nat (length st1)\<rparr>]
       @ replicate (unat (spanLen a1 d)) zeroByteValue"

lemma U_mbv_unfold:
  "Uint32Store_makeByteValue st g a d srcMap =
     (if a = [] then Inl IndexOutOfRange
      else if restKeys a d = [] then Inr (termStore st g a d srcMap)
      else if \<not> d < length (hd (restKeys a d)) \<or> \<not> d < length (last (restKeys a d))
      then Inl IndexOutOfRange
      else Uint32Store_makeByteValue_loop (linkStore (termStore st g a d srcMap) g (restKeys a d) d)
             (of_nat (length st)) (hd (restKeys a d) ! d) (restKeys a d) d srcMap 0)"
  by (subst Uint32Store_makeByteValue.simps)
    (simp add: Let_def hd_conv_nth last_conv_nth termStore_def restKeys_def linkStore_def spanLen_def)

lemma length_termStore [simp]: "length (termStore st g a d srcMap) = length st"
  by (simp add: termStore_def)

definition slotOf :: "uint32 \<Rightarrow> byte \<Rightarrow> nat \<Rightarrow> key \<Rightarrow> nat" where
  "slotOf lo off d k = unat (lo + ucast (k ! d - off))"

lemma U_loop_unfold:
  "Uint32Store_makeByteValue_loop st lo off a d srcMap i =
     (if i < length a then
        (if \<not> d < length (a ! i) then Inl IndexOutOfRange
         else
           (case sameByteHi a d i (i + 1) of
              Inl e \<Rightarrow> Inl e
            | Inr hi \<Rightarrow>
                if \<not> slotOf lo off d (a ! i) < length st then Inl IndexOutOfRange
                else
                  (case Uint32Store_makeByteValue st (slotOf lo off d (a ! i))
                          (take (hi - i) (drop i a)) (d + 1) srcMap of
                     Inl e \<Rightarrow> Inl e
                   | Inr st' \<Rightarrow> Uint32Store_makeByteValue_loop st' lo off a d srcMap hi)))
      else Inr st)"
  by (subst Uint32Store_makeByteValue_loop.simps) (simp add: Let_def slotOf_def split: sum.split)

lemma U_induct_aux:
  assumes "\<And>st g a d.
      (a \<noteq> [] \<Longrightarrow> restKeys a d \<noteq> [] \<Longrightarrow> d < length (hd (restKeys a d)) \<Longrightarrow>
       d < length (last (restKeys a d)) \<Longrightarrow>
       Q (linkStore (termStore st g a d srcMap) g (restKeys a d) d) (of_nat (length st))
         (hd (restKeys a d) ! d) (restKeys a d) d 0) \<Longrightarrow> P st g a d"
    and "\<And>st lo off a d i.
      (\<And>hi. i < length a \<Longrightarrow> d < length (a ! i) \<Longrightarrow> sameByteHi a d i (i + 1) = Inr hi \<Longrightarrow>
         slotOf lo off d (a ! i) < length st \<Longrightarrow>
         P st (slotOf lo off d (a ! i)) (take (hi - i) (drop i a)) (d + 1)) \<Longrightarrow>
      (\<And>hi st'. i < length a \<Longrightarrow> d < length (a ! i) \<Longrightarrow> sameByteHi a d i (i + 1) = Inr hi \<Longrightarrow>
         slotOf lo off d (a ! i) < length st \<Longrightarrow>
         Uint32Store_makeByteValue st (slotOf lo off d (a ! i)) (take (hi - i) (drop i a)) (d + 1) srcMap
           = Inr st' \<Longrightarrow>
         Q st' lo off a d hi) \<Longrightarrow> Q st lo off a d i"
  shows "s = srcMap \<longrightarrow> P st g a d" and "s' = srcMap \<longrightarrow> Q st' lo off a' d' i"
proof (induction st g a d s and st' lo off a' d' s' i
    rule: Uint32Store_makeByteValue_Uint32Store_makeByteValue_loop.induct)
  case (1 st g a d s)
  show ?case
  proof
    assume s: "s = srcMap"
    show "P st g a d"
    proof (rule assms(1))
      assume a: "a \<noteq> []" "restKeys a d \<noteq> []" "d < length (hd (restKeys a d))"
        "d < length (last (restKeys a d))"
      have "s = srcMap \<longrightarrow> Q (linkStore (termStore st g a d srcMap) g (restKeys a d) d)
              (of_nat (length (termStore st g a d srcMap)))
              (hd (restKeys a d) ! d) (restKeys a d) d 0"
        using a s
        by (intro 1 [where xa = "termStore st g a d srcMap" and y = "restKeys a d", OF _ refl])
          (simp_all add: termStore_def restKeys_def linkStore_def spanLen_def hd_conv_nth
            last_conv_nth)
      then show "Q (linkStore (termStore st g a d srcMap) g (restKeys a d) d) (of_nat (length st))
         (hd (restKeys a d) ! d) (restKeys a d) d 0"
        using s by (simp add: length_termStore)
    qed
  qed
next
  case (2 st lo off a d s i)
  show ?case
  proof
    assume s: "s = srcMap"
    show "Q st lo off a d i"
      by (rule assms(2)) (use 2 s in \<open>simp_all add: slotOf_def\<close>)
  qed
qed

lemma U_induct [case_names mbv loop]:
  assumes "\<And>st g a d.
      (a \<noteq> [] \<Longrightarrow> restKeys a d \<noteq> [] \<Longrightarrow> d < length (hd (restKeys a d)) \<Longrightarrow>
       d < length (last (restKeys a d)) \<Longrightarrow>
       Q (linkStore (termStore st g a d srcMap) g (restKeys a d) d) (of_nat (length st))
         (hd (restKeys a d) ! d) (restKeys a d) d 0) \<Longrightarrow> P st g a d"
    and "\<And>st lo off a d i.
      (\<And>hi. i < length a \<Longrightarrow> d < length (a ! i) \<Longrightarrow> sameByteHi a d i (i + 1) = Inr hi \<Longrightarrow>
         slotOf lo off d (a ! i) < length st \<Longrightarrow>
         P st (slotOf lo off d (a ! i)) (take (hi - i) (drop i a)) (d + 1)) \<Longrightarrow>
      (\<And>hi st'. i < length a \<Longrightarrow> d < length (a ! i) \<Longrightarrow> sameByteHi a d i (i + 1) = Inr hi \<Longrightarrow>
         slotOf lo off d (a ! i) < length st \<Longrightarrow>
         Uint32Store_makeByteValue st (slotOf lo off d (a ! i)) (take (hi - i) (drop i a)) (d + 1) srcMap
           = Inr st' \<Longrightarrow>
         Q st' lo off a d hi) \<Longrightarrow> Q st lo off a d i"
  shows "P st g a d" and "Q st' lo off a' d' i"
proof -
  show "P st g a d"
    using U_induct_aux(1) [where P = P and Q = Q and srcMap = srcMap and s = srcMap, OF assms]
    by simp
  show "Q st' lo off a' d' i"
    using U_induct_aux(2) [where P = P and Q = Q and srcMap = srcMap and s' = srcMap, OF assms]
    by simp
qed

lemma length_linkStore [simp]:
  "length (linkStore st1 g a1 d) = length st1 + unat (spanLen a1 d)"
  by (simp add: linkStore_def)

lemma U_mbv_InrE:
  assumes "Uint32Store_makeByteValue st g a d srcMap = Inr st'"
  obtains (leaf) "a \<noteq> []" "restKeys a d = []" "st' = termStore st g a d srcMap"
  | (inner) "a \<noteq> []" "restKeys a d \<noteq> []" "d < length (hd (restKeys a d))"
      "d < length (last (restKeys a d))"
      "Uint32Store_makeByteValue_loop (linkStore (termStore st g a d srcMap) g (restKeys a d) d)
             (of_nat (length st)) (hd (restKeys a d) ! d) (restKeys a d) d srcMap 0 = Inr st'"
  using assms by (subst (asm) U_mbv_unfold) (auto split: if_splits)

lemma U_loop_InrE:
  assumes "Uint32Store_makeByteValue_loop st lo off a d srcMap i = Inr st'"
  obtains (stop) "\<not> i < length a" "st' = st"
  | (step) hi st1 where "i < length a" "d < length (a ! i)" "sameByteHi a d i (i + 1) = Inr hi"
      "slotOf lo off d (a ! i) < length st"
      "Uint32Store_makeByteValue st (slotOf lo off d (a ! i)) (take (hi - i) (drop i a)) (d + 1) srcMap
         = Inr st1"
      "Uint32Store_makeByteValue_loop st1 lo off a d srcMap hi = Inr st'"
  using assms by (subst (asm) U_loop_unfold) (auto split: if_splits sum.splits)

lemma U_length_mono:
  shows "Uint32Store_makeByteValue st g a d srcMap = Inr st' \<Longrightarrow> length st \<le> length st'"
    and "Uint32Store_makeByteValue_loop st1 lo off a1 d1 srcMap i = Inr st1' \<Longrightarrow> length st1 \<le> length st1'"
proof (induction st g a d and st1 lo off a1 d1 i arbitrary: st' and st1' rule: U_induct [where srcMap = srcMap])
  case (mbv st g a d)
  from mbv.prems show ?case
  proof (cases rule: U_mbv_InrE)
    case leaf
    then show ?thesis by simp
  next
    case inner
    from mbv.IH [OF inner] show ?thesis by simp
  qed
next
  case (loop st lo off a d i)
  from loop.prems show ?case
  proof (cases rule: U_loop_InrE)
    case stop
    then show ?thesis by simp
  next
    case (step hi st1)
    from loop.IH(1) [OF step(1-5)] loop.IH(2) [OF step] show ?thesis by simp
  qed
qed

subsection \<open>What a node stands for\<close>

definition kvsOf :: "'v Source \<Rightarrow> key list \<Rightarrow> nat \<Rightarrow> (key \<times> 'v) list" where
  "kvsOf srcMap a d = map (\<lambda>k. (drop d k, Get srcMap k)) a"

definition subKvs :: "byte \<Rightarrow> (key \<times> 'v) list \<Rightarrow> (key \<times> 'v) list" where
  "subKvs c kvs = map (\<lambda>(k, v). (tl k, v)) (filter (\<lambda>(k, v). k \<noteq> [] \<and> hd k = c) kvs)"

inductive rep :: "'v::zero byteValue list \<Rightarrow> nat \<Rightarrow> (key \<times> 'v) list \<Rightarrow> bool" for st where
  repI: "g < length st \<Longrightarrow>
     valid (st ! g) = ([] \<in> fst ` set kvs) \<Longrightarrow>
     bvalue (st ! g) = (case map_of kvs [] of Some v \<Rightarrow> v | None \<Rightarrow> 0) \<Longrightarrow>
     (\<forall>k\<in>fst ` set kvs. k \<noteq> [] \<longrightarrow>
        nextOffset (st ! g) \<le> hd k \<and> hd k - nextOffset (st ! g) < nextLen (st ! g)) \<Longrightarrow>
     (\<forall>j<unat (nextLen (st ! g)).
        unat (nextLo (st ! g)) + j < length st \<and>
        rep st (unat (nextLo (st ! g)) + j) (subKvs (nextOffset (st ! g) + of_nat j) kvs)) \<Longrightarrow>
     rep st g kvs"

lemma map_of_subKvs: "map_of (subKvs c kvs) q = map_of kvs (c # q)"
proof (induction kvs)
  case Nil
  show ?case by (simp add: subKvs_def)
next
  case (Cons p kvs)
  obtain k v where p: "p = (k, v)" by (cases p)
  from Cons have IH: "map_of (map (\<lambda>(k, v). (tl k, v)) (filter (\<lambda>(k, v). k \<noteq> [] \<and> hd k = c) kvs)) q
      = map_of kvs (c # q)"
    by (simp add: subKvs_def)
  show ?case
    by (cases k) (auto simp: subKvs_def p IH)
qed

lemma unat_byte_lt: "unat (x :: byte) < 256"
  using unsigned_less [of x, where 'a = nat] by simp

lemma unat_ucast_byte: "unat (ucast (x :: byte) :: uint32) = unat x"
proof -
  have "unat x < 2 ^ 32"
    using unat_byte_lt [of x] by simp
  then show ?thesis
    by (simp add: unsigned_ucast_eq take_bit_nat_eq_self)
qed

lemma unat_lo_plus:
  "unat (lo :: uint32) + unat (x :: byte) < 2 ^ 32 \<Longrightarrow> unat (lo + ucast x) = unat lo + unat x"
  using unat_add_lem [of lo "ucast x"] by (simp add: unat_ucast_byte)

lemma unat_lo_plus_le: "unat ((lo :: uint32) + ucast (x :: byte)) \<le> unat lo + unat x"
  by (simp add: unat_word_ariths unat_ucast_byte)

lemma unat_of_nat_le: "unat (of_nat n :: uint32) \<le> n"
  by (simp add: unat_of_nat)

lemma unat_of_nat32: "n < 2 ^ 32 \<Longrightarrow> unat (of_nat n :: uint32) = n"
  by (simp add: unat_of_nat)

lemma unat_byte_succ:
  fixes x :: byte
  assumes "x + 1 \<noteq> 0"
  shows "unat (x + 1) = unat x + 1"
proof -
  have m: "unat (x + 1) = (unat x + 1) mod 256"
    by (simp add: unat_word_ariths)
  have "unat (x + 1) \<noteq> 0"
    using assms by (simp add: unat_eq_zero)
  with m have "unat x + 1 \<noteq> 256"
    by auto
  with unat_byte_lt [of x] have "unat x + 1 < 256"
    by simp
  with m show ?thesis by simp
qed

lemma span_unat:
  fixes off mx :: byte
  assumes "off \<le> mx" "mx - off + 1 \<noteq> 0"
  shows "unat (mx - off + 1) = unat mx - unat off + 1"
  using assms by (simp add: unat_byte_succ unat_sub)

lemma span_member:
  fixes off mx c :: byte
  assumes "off \<le> c" "c \<le> mx" "mx - off + 1 \<noteq> 0"
  shows "unat (c - off) < unat (mx - off + 1)" and "c - off < mx - off + 1"
proof -
  from assms have "off \<le> mx" by simp
  with assms show "unat (c - off) < unat (mx - off + 1)"
    by (simp add: span_unat unat_sub word_le_nat_alt)
  then show "c - off < mx - off + 1"
    by (simp add: word_less_nat_alt)
qed

lemma span_slot:
  fixes off n :: byte
  assumes "j < unat n"
  shows "off + of_nat j - off = (of_nat j :: byte)" and "unat (of_nat j :: byte) = j"
proof -
  show "off + of_nat j - off = (of_nat j :: byte)" by simp
  from assms unat_byte_lt [of n] have "j < 256" by simp
  then show "unat (of_nat j :: byte) = j"
    by (simp add: unat_of_nat)
qed

lemma span_slot_le:
  fixes off mx :: byte
  assumes "off \<le> mx" "mx - off + 1 \<noteq> 0" "j < unat (mx - off + 1)"
  shows "off \<le> off + of_nat j" and "off + of_nat j \<le> mx"
proof -
  from assms have j: "j \<le> unat mx - unat off"
    by (simp add: span_unat)
  from assms(1) have le: "unat off \<le> unat mx"
    by (simp add: word_le_nat_alt)
  have jj: "unat (of_nat j :: byte) = j"
    using assms(3) by (rule span_slot(2))
  have "unat off + j < 256"
    using j le unat_byte_lt [of mx] by simp
  then have u: "unat (off + of_nat j) = unat off + j"
    using unat_add_lem [of off "of_nat j"] jj by simp
  then show "off \<le> off + of_nat j"
    by (simp add: word_le_nat_alt)
  from u j le show "off + of_nat j \<le> mx"
    by (simp add: word_le_nat_alt)
qed

definition found :: "(key \<times> 'v::zero) list \<Rightarrow> key \<Rightarrow> 'v \<times> bool" where
  "found kvs q = (case map_of kvs q of Some v \<Rightarrow> (v, True) | None \<Rightarrow> (0, False))"

lemma rep_walk:
  "rep st g kvs \<Longrightarrow> length st \<le> 2 ^ 32 \<Longrightarrow>
   Uint32Store_LookupBytes_loop st q g = Inr (found kvs q)"
proof (induction q arbitrary: g kvs)
  case Nil
  have "([] \<in> fst ` set kvs) = (map_of kvs [] \<noteq> None)"
    by (simp add: map_of_eq_None_iff)
  with Nil.prems(1) show ?case
    by (cases rule: rep.cases) (auto simp: found_def split: option.splits)
next
  case (Cons c q)
  from Cons.prems(1) show ?case
  proof (cases rule: rep.cases)
    case repI
    let ?n = "st ! g"
    show ?thesis
    proof (cases "c < nextOffset ?n \<or> nextLen ?n \<le> c - nextOffset ?n")
      case True
      have "map_of kvs (c # q) = None"
      proof (cases "map_of kvs (c # q)")
        case (Some v)
        then have "c # q \<in> fst ` set kvs"
          by (metis map_of_SomeD fst_conv image_eqI)
        with repI(4) True show ?thesis by fastforce
      qed simp
      with True show ?thesis by (auto simp: found_def)
    next
      case False
      then have lt: "unat (c - nextOffset ?n) < unat (nextLen ?n)"
        by (simp add: word_less_nat_alt not_le)
      from repI(5) lt have
        idx: "unat (nextLo ?n) + unat (c - nextOffset ?n) < length st" and
        sub: "rep st (unat (nextLo ?n) + unat (c - nextOffset ?n))
                (subKvs (nextOffset ?n + of_nat (unat (c - nextOffset ?n))) kvs)"
        by blast+
      from idx Cons.prems(2) have
        j: "unat (nextLo ?n + ucast (c - nextOffset ?n)) = unat (nextLo ?n) + unat (c - nextOffset ?n)"
        by (intro unat_lo_plus) simp
      have c: "nextOffset ?n + of_nat (unat (c - nextOffset ?n)) = c"
        by simp
      from False have nl: "\<not> nextLen ?n \<le> c - nextOffset ?n" "\<not> c < nextOffset ?n"
        by auto
      from Cons.IH [OF sub [unfolded c] Cons.prems(2)] idx j show ?thesis
        by (simp add: found_def map_of_subKvs Let_def nl)
    qed
  qed
qed


subsection \<open>Sorted keys\<close>

definition keysOk :: "key list \<Rightarrow> nat \<Rightarrow> bool" where
  "keysOk a d \<longleftrightarrow> (\<forall>k\<in>set a. d \<le> length k) \<and> sorted_wrt (<) (map (drop d) a)"

definition keysOk1 :: "key list \<Rightarrow> nat \<Rightarrow> bool" where
  "keysOk1 a d \<longleftrightarrow> (\<forall>k\<in>set a. d < length k) \<and> sorted_wrt (<) (map (drop d) a)"

lemma keysOk1_drop: "keysOk1 a d \<Longrightarrow> keysOk1 (drop i a) d"
  by (auto simp: keysOk1_def drop_map [symmetric] sorted_wrt_drop dest: in_set_dropD)

lemma keysOk1_take: "keysOk1 a d \<Longrightarrow> keysOk1 (take i a) d"
  by (auto simp: keysOk1_def take_map [symmetric] sorted_wrt_take dest: in_set_takeD)

lemma keysOk_restKeys:
  assumes "keysOk a d" "a \<noteq> []"
  shows "keysOk1 (restKeys a d) d"
proof -
  obtain k ks where a: "a = k # ks"
    using assms(2) by (cases a) auto
  from assms(1) a have later: "\<forall>x\<in>set ks. drop d k < drop d x" and
    sorted: "sorted_wrt (<) (map (drop d) ks)" and len: "\<forall>x\<in>set (k # ks). d \<le> length x"
    by (auto simp: keysOk_def)
  have "d < length x" if "x \<in> set ks" for x
  proof (rule ccontr)
    assume "\<not> d < length x"
    then have "drop d x = []" by simp
    with later that show False by auto
  qed
  with sorted len assms(1) show ?thesis
    by (auto simp: restKeys_def a keysOk1_def keysOk_def)
qed

lemma drop_nth_Cons: "d < length k \<Longrightarrow> drop d k = k ! d # drop (d + 1) k"
  by (simp add: Cons_nth_drop_Suc)

lemma keysOk1_bytes_sorted:
  "keysOk1 a d \<Longrightarrow> sorted (map (\<lambda>k. k ! d) a)"
proof (induction a)
  case Nil
  show ?case by simp
next
  case (Cons k ks)
  then have "k ! d \<le> x ! d" if "x \<in> set ks" for x
    using that by (fastforce simp: keysOk1_def drop_nth_Cons intro: less_imp_le)
  with Cons show ?case
    by (auto simp: keysOk1_def)
qed

lemma keysOk1_bounds:
  assumes "keysOk1 a d" "k \<in> set a"
  shows "hd a ! d \<le> k ! d" and "k ! d \<le> last a ! d"
proof -
  from assms(2) obtain j where j: "j < length a" "a ! j = k"
    by (auto simp: in_set_conv_nth)
  then have ne: "a \<noteq> []" by auto
  have s: "sorted (map (\<lambda>k. k ! d) a)"
    by (rule keysOk1_bytes_sorted [OF assms(1)])
  from sorted_nth_mono [OF s, of 0 j] j ne show "hd a ! d \<le> k ! d"
    by (simp add: hd_conv_nth)
  from sorted_nth_mono [OF s, of j "length a - 1"] j ne show "k ! d \<le> last a ! d"
    by (simp add: last_conv_nth)
qed

lemma keysOk1_same_byte:
  assumes "keysOk1 a d" "\<forall>k\<in>set a. k ! d = c"
  shows "keysOk a (d + 1)"
proof -
  have "sorted_wrt (<) (map (drop (d + 1)) a)"
    using assms
  proof (induction a)
    case Nil
    show ?case by simp
  next
    case (Cons k ks)
    then have "drop (d + 1) k < drop (d + 1) x" if "x \<in> set ks" for x
      using that by (auto simp: keysOk1_def drop_nth_Cons)
    with Cons show ?case
      by (auto simp: keysOk1_def)
  qed
  with assms(1) show ?thesis
    by (auto simp: keysOk_def keysOk1_def Suc_le_eq)
qed

lemma sameByteHi_run:
  "sameByteHi a d i h = Inr hi \<Longrightarrow> h \<le> length a \<Longrightarrow>
   h \<le> hi \<and> hi \<le> length a \<and> (\<forall>j. h \<le> j \<and> j < hi \<longrightarrow> a ! j ! d = a ! i ! d) \<and>
   (hi < length a \<longrightarrow> a ! hi ! d \<noteq> a ! i ! d)"
proof (induction a d i h rule: sameByteHi.induct)
  case (1 a d i h)
  show ?case
  proof (cases "h < length a \<and> a ! h ! d = a ! i ! d")
    case True
    with "1.prems" have "sameByteHi a d i (h + 1) = Inr hi"
      by (subst (asm) sameByteHi.simps) (auto split: if_splits)
    moreover from "1.prems" True have "d < length (a ! h)" "d < length (a ! i)"
      by (subst (asm) sameByteHi.simps, auto split: if_splits)+
    ultimately have "h + 1 \<le> hi \<and> hi \<le> length a \<and>
        (\<forall>j. h + 1 \<le> j \<and> j < hi \<longrightarrow> a ! j ! d = a ! i ! d) \<and>
        (hi < length a \<longrightarrow> a ! hi ! d \<noteq> a ! i ! d)"
      using "1.IH" True by simp
    with True show ?thesis
      by (metis Suc_eq_plus1 Suc_leD Suc_leI le_neq_implies_less)
  next
    case False
    with "1.prems" have "hi = h"
      by (subst (asm) sameByteHi.simps) (auto split: if_splits)
    with False "1.prems"(2) show ?thesis by auto
  qed
qed

section \<open>The lookup loops\<close>

declare LookupString_loop.simps [simp del] LookupBytes_loop.simps [simp del]
  Uint32Store_LookupString_loop.simps [simp del]
  MapFaster_LookupString_loop.simps [simp del] MapFaster_LookupBytes_loop.simps [simp del]

lemma LookupString_loop_drop:
  "LookupString_loop st s i bv = Uint32Store_LookupBytes_loop st (drop i s) bv"
proof (induction st s i bv rule: LookupString_loop.induct)
  case (1 st s i bv)
  show ?case
  proof (cases "i < length s")
    case True
    then have d: "drop i s = s ! i # drop (i + 1) s"
      by (simp add: Cons_nth_drop_Suc)
    show ?thesis
      using True 1 by (subst LookupString_loop.simps) (simp add: d Let_def)
  next
    case False
    then show ?thesis
      by (subst LookupString_loop.simps) simp
  qed
qed

lemma LookupBytes_loop_drop:
  "LookupBytes_loop st s i bv = Uint32Store_LookupBytes_loop st (drop i s) bv"
proof (induction st s i bv rule: LookupBytes_loop.induct)
  case (1 st s i bv)
  show ?case
  proof (cases "i < length s")
    case True
    then have d: "drop i s = s ! i # drop (i + 1) s"
      by (simp add: Cons_nth_drop_Suc)
    show ?thesis
      using True 1 by (subst LookupBytes_loop.simps) (simp add: d Let_def)
  next
    case False
    then show ?thesis
      by (subst LookupBytes_loop.simps) simp
  qed
qed

lemma Uint32Store_LookupString_loop_drop:
  "Uint32Store_LookupString_loop st s i bv = Uint32Store_LookupBytes_loop st (drop i s) bv"
proof (induction st s i bv rule: Uint32Store_LookupString_loop.induct)
  case (1 st s i bv)
  show ?case
  proof (cases "i < length s")
    case True
    then have d: "drop i s = s ! i # drop (i + 1) s"
      by (simp add: Cons_nth_drop_Suc)
    show ?thesis
      using True 1 by (subst Uint32Store_LookupString_loop.simps) (simp add: d Let_def)
  next
    case False
    then show ?thesis
      by (subst Uint32Store_LookupString_loop.simps) simp
  qed
qed

lemma MapFaster_loops_eq:
  "MapFaster_LookupString_loop st s i bv = MapFaster_LookupBytes_loop st s i bv"
proof (induction st s i bv rule: MapFaster_LookupString_loop.induct)
  case (1 st s i bv)
  show ?case
    using 1 by (subst MapFaster_LookupString_loop.simps, subst MapFaster_LookupBytes_loop.simps)
      (simp add: Let_def)
qed

lemma walk_zero:
  "st ! bv = zeroByteValue \<Longrightarrow> Uint32Store_LookupBytes_loop st q bv = Inr (0, False)"
  by (cases q) (simp_all add: zeroByteValue_def)

lemma sameByteHi_split:
  assumes hi: "sameByteHi a d i (i + 1) = Inr hi" and i: "i < length a"
    and ok: "keysOk1 (drop i a) d"
  shows "i < hi" "hi \<le> length a"
    "drop i a = take (hi - i) (drop i a) @ drop hi a"
    "\<forall>k\<in>set (take (hi - i) (drop i a)). k ! d = a ! i ! d"
    "\<forall>k\<in>set (drop hi a). k ! d \<noteq> a ! i ! d"
proof -
  from sameByteHi_run [OF hi] i have
    r: "i + 1 \<le> hi" "hi \<le> length a" "\<forall>j. i + 1 \<le> j \<and> j < hi \<longrightarrow> a ! j ! d = a ! i ! d"
      "hi < length a \<longrightarrow> a ! hi ! d \<noteq> a ! i ! d"
    by auto
  from r show "i < hi" "hi \<le> length a" by auto
  show "drop i a = take (hi - i) (drop i a) @ drop hi a"
    using r(1) by (metis Suc_eq_plus1 Suc_leD append_take_drop_id drop_drop le_add_diff_inverse2)
  have same: "a ! j ! d = a ! i ! d" if "i \<le> j" "j < hi" for j
    using that r(3) by (cases "j = i") auto
  show "\<forall>k\<in>set (take (hi - i) (drop i a)). k ! d = a ! i ! d"
  proof
    fix k
    assume "k \<in> set (take (hi - i) (drop i a))"
    then obtain j where "j < hi - i" "j < length a - i" "k = a ! (i + j)"
      by (auto simp: in_set_conv_nth)
    with same [of "i + j"] show "k ! d = a ! i ! d" by simp
  qed
  have s: "sorted (map (\<lambda>k. k ! d) (drop i a))"
    by (rule keysOk1_bytes_sorted [OF ok])
  show "\<forall>k\<in>set (drop hi a). k ! d \<noteq> a ! i ! d"
  proof
    fix k
    assume "k \<in> set (drop hi a)"
    then obtain j where j: "j < length a - hi" "k = a ! (hi + j)"
      by (auto simp: in_set_conv_nth)
    then have hl: "hi < length a" by simp
    from sorted_nth_mono [OF s, of 0 "hi - i"] r(1) hl have 1: "a ! i ! d \<le> a ! hi ! d"
      by simp
    from sorted_nth_mono [OF s, of "hi - i" "hi + j - i"] r(1) j have 2: "a ! hi ! d \<le> k ! d"
      by simp
    from r(4) hl 1 2 show "k ! d \<noteq> a ! i ! d"
      by auto
  qed
qed

lemma run_filters:
  assumes hi: "sameByteHi a d i (i + 1) = Inr hi" and i: "i < length a"
    and ok: "keysOk1 (drop i a) d"
  shows "k \<in> set (take (hi - i) (drop i a)) \<Longrightarrow>
           filter (\<lambda>k'. k' ! d = k ! d) (drop i a) = take (hi - i) (drop i a)"
    and "k \<in> set (drop hi a) \<Longrightarrow>
           filter (\<lambda>k'. k' ! d = k ! d) (drop i a) = filter (\<lambda>k'. k' ! d = k ! d) (drop hi a)"
proof -
  note sp = sameByteHi_split [OF assms]
  {
    assume k: "k \<in> set (take (hi - i) (drop i a))"
    with sp(4) have kd: "k ! d = a ! i ! d" by blast
    have "filter (\<lambda>k'. k' ! d = k ! d) (take (hi - i) (drop i a) @ drop hi a)
        = take (hi - i) (drop i a)"
      using sp(4,5) by (simp add: kd filter_id_conv filter_empty_conv)
    with sp(3) show "filter (\<lambda>k'. k' ! d = k ! d) (drop i a) = take (hi - i) (drop i a)"
      by simp
  }
  {
    assume k: "k \<in> set (drop hi a)"
    with sp(5) have kd: "k ! d \<noteq> a ! i ! d" by blast
    have "filter (\<lambda>k'. k' ! d = k ! d) (take (hi - i) (drop i a) @ drop hi a)
        = filter (\<lambda>k'. k' ! d = k ! d) (drop hi a)"
      using sp(4) kd by (auto simp: filter_empty_conv)
    with sp(3) show "filter (\<lambda>k'. k' ! d = k ! d) (drop i a)
        = filter (\<lambda>k'. k' ! d = k ! d) (drop hi a)"
      by simp
  }
qed

lemma subKvs_kvsOf_gen:
  "\<forall>k\<in>set a. d \<le> length k \<Longrightarrow>
   subKvs c (kvsOf srcMap a d) = kvsOf srcMap (filter (\<lambda>k. d < length k \<and> k ! d = c) a) (d + 1)"
proof (induction a)
  case Nil
  show ?case by (simp add: subKvs_def kvsOf_def)
next
  case (Cons k ks)
  then have IH: "subKvs c (kvsOf srcMap ks d)
      = kvsOf srcMap (filter (\<lambda>k. d < length k \<and> k ! d = c) ks) (d + 1)"
    by simp
  have split: "subKvs c (kvsOf srcMap (k # ks) d)
      = (if drop d k \<noteq> [] \<and> hd (drop d k) = c then [(tl (drop d k), Get srcMap k)] else [])
        @ subKvs c (kvsOf srcMap ks d)"
    by (simp add: subKvs_def kvsOf_def)
  show ?case
    by (simp add: split IH) (auto simp: kvsOf_def hd_drop_conv_nth drop_Suc tl_drop)
qed

lemma filter_restKeys:
  assumes "keysOk a d" "a \<noteq> []"
  shows "filter (\<lambda>k. d < length k \<and> k ! d = c) a = filter (\<lambda>k. k ! d = c) (restKeys a d)"
proof -
  from keysOk_restKeys [OF assms] have r: "\<forall>k\<in>set (restKeys a d). d < length k"
    by (simp add: keysOk1_def)
  obtain k ks where a: "a = k # ks"
    using assms(2) by (cases a) auto
  show ?thesis
  proof (cases "length k = d")
    case True
    with r a have "\<forall>x\<in>set ks. d < length x"
      by (simp add: restKeys_def)
    then have "filter (\<lambda>k. d < length k \<and> k ! d = c) ks = filter (\<lambda>k. k ! d = c) ks"
      by (intro filter_cong) auto
    with True show ?thesis
      by (simp add: a restKeys_def)
  next
    case False
    with r a have "\<forall>x\<in>set (k # ks). d < length x"
      by (simp add: restKeys_def)
    then have "filter (\<lambda>k. d < length k \<and> k ! d = c) (k # ks) = filter (\<lambda>k. k ! d = c) (k # ks)"
      by (intro filter_cong) auto
    with False show ?thesis
      by (simp add: a restKeys_def)
  qed
qed

lemma subKvs_kvsOf:
  assumes "keysOk a d" "a \<noteq> []"
  shows "subKvs c (kvsOf srcMap a d) = kvsOf srcMap (filter (\<lambda>k. k ! d = c) (restKeys a d)) (d + 1)"
  using subKvs_kvsOf_gen [of a d c srcMap] filter_restKeys [OF assms, of c] assms(1)
  by (simp add: keysOk_def)

lemma rep_zero: "g < length st \<Longrightarrow> st ! g = zeroByteValue \<Longrightarrow> rep st g []"
  by (rule repI) (simp_all add: zeroByteValue_def subKvs_def)

lemma terminal_iff:
  assumes "keysOk a d" "a \<noteq> []"
  shows "([] \<in> fst ` set (kvsOf srcMap a d)) = (length (hd a) = d)"
    and "map_of (kvsOf srcMap a d) [] = (if length (hd a) = d then Some (Get srcMap (hd a)) else None)"
proof -
  from keysOk_restKeys [OF assms] have r: "\<forall>k\<in>set (restKeys a d). d < length k"
    by (simp add: keysOk1_def)
  obtain k ks where a: "a = k # ks"
    using assms(2) by (cases a) auto
  show "([] \<in> fst ` set (kvsOf srcMap a d)) = (length (hd a) = d)"
    using r assms(1) by (auto simp: a kvsOf_def restKeys_def keysOk_def split: if_splits)
  have "map_of (kvsOf srcMap a d) [] = None" if "length k \<noteq> d"
    using r that by (force simp: a kvsOf_def restKeys_def map_of_eq_None_iff)
  then show "map_of (kvsOf srcMap a d) [] = (if length (hd a) = d then Some (Get srcMap (hd a)) else None)"
    using assms(1) by (auto simp: a kvsOf_def keysOk_def)
qed

lemma termStore_nth:
  "j \<noteq> g \<Longrightarrow> termStore st g a d srcMap ! j = st ! j"
  "g < length st \<Longrightarrow> termStore st g a d srcMap ! g =
     (if length (hd a) = d then (st ! g)\<lparr>valid := True, bvalue := Get srcMap (hd a)\<rparr> else st ! g)"
  by (simp_all add: termStore_def)

lemma linkStore_nth:
  "j < length st1 \<Longrightarrow> j \<noteq> g \<Longrightarrow> linkStore st1 g a1 d ! j = st1 ! j"
  "g < length st1 \<Longrightarrow> linkStore st1 g a1 d ! g =
     (st1 ! g)\<lparr>nextOffset := hd a1 ! d, nextLen := spanLen a1 d, nextLo := of_nat (length st1)\<rparr>"
  "length st1 \<le> j \<Longrightarrow> j < length st1 + unat (spanLen a1 d) \<Longrightarrow>
     linkStore st1 g a1 d ! j = zeroByteValue"
  by (simp_all add: linkStore_def nth_append)

text \<open>A successful loop from 0 excludes the wrapped span of 256.\<close>

lemma spanLen_nonzero:
  assumes run: "Uint32Store_makeByteValue_loop st3 (of_nat L) (hd a1 ! d) a1 d srcMap 0 = Inr st'"
    and ne: "a1 \<noteq> []" and len: "length st3 = L + unat (spanLen a1 d)" and L: "L < 2 ^ 32"
  shows "spanLen a1 d \<noteq> 0"
proof
  assume z: "spanLen a1 d = 0"
  from run show False
  proof (cases rule: U_loop_InrE)
    case stop
    with ne show ?thesis by simp
  next
    case (step hi st1)
    from ne have "a1 ! 0 = hd a1" by (simp add: hd_conv_nth)
    then have "slotOf (of_nat L) (hd a1 ! d) d (a1 ! 0) = L"
      using L by (simp add: slotOf_def unat_of_nat32)
    with step(4) len z show ?thesis by simp
  qed
qed

lemma slot_facts:
  assumes ok: "keysOk1 a1 d" and nz: "spanLen a1 d \<noteq> 0"
    and L: "L + unat (spanLen a1 d) < 2 ^ 32" and k: "k \<in> set a1"
  shows "slotOf (of_nat L) (hd a1 ! d) d k = L + unat (k ! d - hd a1 ! d)"
    and "unat (k ! d - hd a1 ! d) < unat (spanLen a1 d)"
    and "hd a1 ! d \<le> k ! d" and "k ! d - hd a1 ! d < spanLen a1 d"
proof -
  note b = keysOk1_bounds [OF ok k]
  from b show "hd a1 ! d \<le> k ! d" by simp
  from span_member [OF b] nz show
    lt: "unat (k ! d - hd a1 ! d) < unat (spanLen a1 d)" and "k ! d - hd a1 ! d < spanLen a1 d"
    by (simp_all add: spanLen_def)
  from L have "unat (of_nat L :: uint32) = L"
    by (simp add: unat_of_nat32)
  with lt L show "slotOf (of_nat L) (hd a1 ! d) d k = L + unat (k ! d - hd a1 ! d)"
    by (simp add: slotOf_def unat_lo_plus)
qed

definition mbvPost ::
    "'v::zero Source \<Rightarrow> 'v byteValue list \<Rightarrow> nat \<Rightarrow> key list \<Rightarrow> nat \<Rightarrow> 'v byteValue list \<Rightarrow> bool" where
  "mbvPost srcMap st g a d st' \<longleftrightarrow>
     (\<forall>j<length st. j \<noteq> g \<longrightarrow> st' ! j = st ! j) \<and>
     (\<forall>st''. (\<forall>j\<in>insert g {length st..<length st'}. j < length st'' \<and> st'' ! j = st' ! j) \<longrightarrow>
        rep st'' g (kvsOf srcMap a d))"

definition loopPost ::
    "'v::zero Source \<Rightarrow> 'v byteValue list \<Rightarrow> uint32 \<Rightarrow> byte \<Rightarrow> key list \<Rightarrow> nat \<Rightarrow> 'v byteValue list \<Rightarrow> bool" where
  "loopPost srcMap st lo off ks d st' \<longleftrightarrow>
     (\<forall>j<length st. j \<notin> slotOf lo off d ` set ks \<longrightarrow> st' ! j = st ! j) \<and>
     (\<forall>st''. (\<forall>j\<in>slotOf lo off d ` set ks \<union> {length st..<length st'}.
                 j < length st'' \<and> st'' ! j = st' ! j) \<longrightarrow>
        (\<forall>k\<in>set ks. rep st'' (slotOf lo off d k)
           (kvsOf srcMap (filter (\<lambda>k'. k' ! d = k ! d) ks) (d + 1))))"

definition slotsFresh :: "'v::zero byteValue list \<Rightarrow> uint32 \<Rightarrow> byte \<Rightarrow> key list \<Rightarrow> nat \<Rightarrow> bool" where
  "slotsFresh st lo off ks d \<longleftrightarrow>
     (\<forall>k\<in>set ks. slotOf lo off d k < length st \<and> st ! slotOf lo off d k = zeroByteValue) \<and>
     (\<forall>k\<in>set ks. \<forall>k'\<in>set ks. slotOf lo off d k = slotOf lo off d k' \<longrightarrow> k ! d = k' ! d)"

lemma loop_step_post:
  assumes hi: "sameByteHi a d i (i + 1) = Inr hi" and i: "i < length a"
    and ok: "keysOk1 (drop i a) d"
    and fresh: "slotsFresh st lo off (drop i a) d"
    and len: "length st \<le> length st1" "length st1 \<le> length st'"
    and P: "mbvPost srcMap st (slotOf lo off d (a ! i)) (take (hi - i) (drop i a)) (d + 1) st1"
    and Q: "loopPost srcMap st1 lo off (drop hi a) d st'"
  shows "loopPost srcMap st lo off (drop i a) d st'"
proof -
  let ?slot = "slotOf lo off d"
  let ?run = "take (hi - i) (drop i a)"
  note sp = sameByteHi_split [OF hi i ok]
  have "?run = take (hi - i) (a ! i # drop (Suc i) a)"
    using i by (simp add: Cons_nth_drop_Suc)
  then have ai: "a ! i \<in> set ?run"
    using sp(1) by (cases "hi - i") simp_all
  have sets: "set (drop i a) = set ?run \<union> set (drop hi a)"
    by (subst sp(3)) simp
  have other: "?slot k \<noteq> ?slot (a ! i)" if "k \<in> set (drop hi a)" for k
  proof
    assume "?slot k = ?slot (a ! i)"
    with fresh that ai sets have "k ! d = a ! i ! d"
      by (auto simp: slotsFresh_def)
    with sp(5) that show False by blast
  qed
  have same: "?slot k = ?slot (a ! i)" if "k \<in> set ?run" for k
    using sp(4) that by (simp add: slotOf_def)
  have below: "?slot k < length st" if "k \<in> set (drop i a)" for k
    using fresh that by (simp add: slotsFresh_def)
  from P have P1: "\<And>j. j < length st \<Longrightarrow> j \<noteq> ?slot (a ! i) \<Longrightarrow> st1 ! j = st ! j"
    and P2: "\<And>st''. (\<forall>j\<in>insert (?slot (a ! i)) {length st..<length st1}.
                j < length st'' \<and> st'' ! j = st1 ! j) \<Longrightarrow>
             rep st'' (?slot (a ! i)) (kvsOf srcMap ?run (d + 1 + 0))"
    by (simp_all add: mbvPost_def)
  from Q have Q1: "\<And>j. j < length st1 \<Longrightarrow> j \<notin> ?slot ` set (drop hi a) \<Longrightarrow> st' ! j = st1 ! j"
    and Q2: "\<And>st'' k. (\<forall>j\<in>?slot ` set (drop hi a) \<union> {length st1..<length st'}.
                j < length st'' \<and> st'' ! j = st' ! j) \<Longrightarrow> k \<in> set (drop hi a) \<Longrightarrow>
             rep st'' (?slot k) (kvsOf srcMap (filter (\<lambda>k'. k' ! d = k ! d) (drop hi a)) (d + 1))"
    by (simp_all add: loopPost_def)
  show ?thesis
    unfolding loopPost_def
  proof (intro conjI allI impI ballI)
    fix j
    assume j: "j < length st" "j \<notin> ?slot ` set (drop i a)"
    with sets ai have "j \<noteq> ?slot (a ! i)" "j \<notin> ?slot ` set (drop hi a)"
      by auto
    with j len Q1 [of j] P1 [of j] show "st' ! j = st ! j"
      by simp
  next
    fix st'' k
    assume agree: "\<forall>j\<in>?slot ` set (drop i a) \<union> {length st..<length st'}.
        j < length st'' \<and> st'' ! j = st' ! j"
      and k: "k \<in> set (drop i a)"
    from k sets consider (run) "k \<in> set ?run" | (rest) "k \<in> set (drop hi a)"
      by auto
    then show "rep st'' (?slot k) (kvsOf srcMap (filter (\<lambda>k'. k' ! d = k ! d) (drop i a)) (d + 1))"
    proof cases
      case run
      have "\<forall>j\<in>insert (?slot (a ! i)) {length st..<length st1}.
          j < length st'' \<and> st'' ! j = st1 ! j"
      proof
        fix j
        assume j: "j \<in> insert (?slot (a ! i)) {length st..<length st1}"
        have in_region: "j \<in> ?slot ` set (drop i a) \<union> {length st..<length st'}"
          using j ai sets len by auto
        have "j < length st1"
          using j below [of "a ! i"] ai sets len by auto
        moreover have "j \<notin> ?slot ` set (drop hi a)"
        proof
          assume "j \<in> ?slot ` set (drop hi a)"
          then obtain k' where k': "k' \<in> set (drop hi a)" "j = ?slot k'" by auto
          with other [of k'] below [of k'] sets j show False by auto
        qed
        ultimately have "st' ! j = st1 ! j" by (rule Q1)
        with agree in_region show "j < length st'' \<and> st'' ! j = st1 ! j"
          by auto
      qed
      from P2 [OF this] same [OF run] run_filters(1) [OF hi i ok run] show ?thesis
        by simp
    next
      case rest
      have "\<forall>j\<in>?slot ` set (drop hi a) \<union> {length st1..<length st'}.
          j < length st'' \<and> st'' ! j = st' ! j"
        using agree sets len by auto
      from Q2 [OF this rest] run_filters(2) [OF hi i ok rest] show ?thesis
        by simp
    qed
  qed
qed


lemma fresh_after_link:
  assumes ok: "keysOk1 a1 d" and nz: "spanLen a1 d \<noteq> 0"
    and L: "length st1 + unat (spanLen a1 d) < 2 ^ 32"
  shows "slotsFresh (linkStore st1 g a1 d) (of_nat (length st1)) (hd a1 ! d) a1 d"
  unfolding slotsFresh_def
proof (intro conjI ballI impI)
  fix k
  assume k: "k \<in> set a1"
  note f = slot_facts [OF ok nz L k]
  from f(1,2) show "slotOf (of_nat (length st1)) (hd a1 ! d) d k < length (linkStore st1 g a1 d)"
    by simp
  from f(1,2) show "linkStore st1 g a1 d ! slotOf (of_nat (length st1)) (hd a1 ! d) d k = zeroByteValue"
    by (simp add: linkStore_nth(3))
next
  fix k k'
  assume k: "k \<in> set a1" "k' \<in> set a1"
    and eq: "slotOf (of_nat (length st1)) (hd a1 ! d) d k = slotOf (of_nat (length st1)) (hd a1 ! d) d k'"
  from slot_facts(1) [OF ok nz L k(1)] slot_facts(1) [OF ok nz L k(2)] eq
  have "unat (k ! d - hd a1 ! d) = unat (k' ! d - hd a1 ! d)"
    by simp
  then have "k ! d - hd a1 ! d = k' ! d - hd a1 ! d"
    by (simp only: word_unat_eq_iff)
  then show "k ! d = k' ! d"
    by simp
qed

lemma slotsFreshD:
  "slotsFresh st lo off ks d \<Longrightarrow> k \<in> set ks \<Longrightarrow> slotOf lo off d k < length st"
  "slotsFresh st lo off ks d \<Longrightarrow> k \<in> set ks \<Longrightarrow> st ! slotOf lo off d k = zeroByteValue"
  "slotsFresh st lo off ks d \<Longrightarrow> k \<in> set ks \<Longrightarrow> k' \<in> set ks \<Longrightarrow>
     slotOf lo off d k = slotOf lo off d k' \<Longrightarrow> k ! d = k' ! d"
  unfolding slotsFresh_def by blast+

lemma mbvPost_frame:
  "mbvPost srcMap st g a d st' \<Longrightarrow> j < length st \<Longrightarrow> j \<noteq> g \<Longrightarrow> st' ! j = st ! j"
  by (simp add: mbvPost_def)

lemma mbv_leaf_post:
  assumes g: "g < length st" and z: "st ! g = zeroByteValue" and ok: "keysOk a d"
    and ne: "a \<noteq> []" and rest: "restKeys a d = []"
  shows "mbvPost srcMap st g a d (termStore st g a d srcMap)"
proof -
  obtain k ks where kks: "a = k # ks"
    using ne by (cases a) auto
  with rest have a: "a = [k]" and k: "length k = d"
    by (simp_all add: restKeys_def split: if_splits)
  have node: "termStore st g a d srcMap ! g
      = zeroByteValue\<lparr>valid := True, bvalue := Get srcMap k\<rparr>"
    using g by (simp add: termStore_def a k z)
  have kvs: "kvsOf srcMap a d = [([], Get srcMap k)]"
    by (simp add: kvsOf_def a k)
  show ?thesis
    unfolding mbvPost_def
  proof (intro conjI allI impI)
    fix j
    assume "j < length st" "j \<noteq> g"
    then show "termStore st g a d srcMap ! j = st ! j"
      by (simp add: termStore_nth(1))
  next
    fix st'' :: "'a byteValue list"
    assume "\<forall>j\<in>insert g {length st..<length (termStore st g a d srcMap)}.
        j < length st'' \<and> st'' ! j = termStore st g a d srcMap ! j"
    then have "g < length st''" "st'' ! g = termStore st g a d srcMap ! g"
      by simp_all
    then show "rep st'' g (kvsOf srcMap a d)"
      by (intro repI) (simp_all add: kvs node zeroByteValue_def)
  qed
qed

lemma mbv_inner_post:
  assumes g: "g < length st" and z: "st ! g = zeroByteValue" and ok: "keysOk a d"
    and ne: "a \<noteq> []" and rne: "restKeys a d \<noteq> []"
    and nz: "spanLen (restKeys a d) d \<noteq> 0"
    and bound: "length st' < 2 ^ 32"
    and len: "length st + unat (spanLen (restKeys a d) d) \<le> length st'"
    and Q: "loopPost srcMap (linkStore (termStore st g a d srcMap) g (restKeys a d) d)
              (of_nat (length st)) (hd (restKeys a d) ! d) (restKeys a d) d st'"
  shows "mbvPost srcMap st g a d st'"
proof -
  let ?a1 = "restKeys a d"
  let ?st1 = "termStore st g a d srcMap"
  let ?st3 = "linkStore ?st1 g ?a1 d"
  let ?off = "hd ?a1 ! d"
  let ?n = "spanLen ?a1 d"
  let ?lo = "of_nat (length st) :: uint32"
  let ?slot = "slotOf ?lo ?off d"
  let ?L = "length st"
  have ok1: "keysOk1 ?a1 d"
    by (rule keysOk_restKeys [OF ok ne])
  from bound len have L: "?L + unat ?n < 2 ^ 32"
    by simp
  then have lo: "unat ?lo = ?L"
    by (simp add: unat_of_nat32)
  note sf = slot_facts [OF ok1 nz L]
  have len3: "length ?st3 = ?L + unat ?n"
    by simp
  from Q have Q1: "\<And>j. j < length ?st3 \<Longrightarrow> j \<notin> ?slot ` set ?a1 \<Longrightarrow> st' ! j = ?st3 ! j"
    and Q2: "\<And>st'' k. (\<forall>j\<in>?slot ` set ?a1 \<union> {length ?st3..<length st'}.
                j < length st'' \<and> st'' ! j = st' ! j) \<Longrightarrow> k \<in> set ?a1 \<Longrightarrow>
             rep st'' (?slot k) (kvsOf srcMap (filter (\<lambda>k'. k' ! d = k ! d) ?a1) (d + 1))"
    by (simp_all add: loopPost_def)
  have slot_ge: "?L \<le> j" "j < ?L + unat ?n" if "j \<in> ?slot ` set ?a1" for j
    using that sf(1,2) by auto
  have old: "st' ! j = ?st3 ! j" if "j < ?L" for j
    using that slot_ge(1) [of j] by (intro Q1) auto
  have node: "st' ! g = (?st1 ! g)\<lparr>nextOffset := ?off, nextLen := ?n, nextLo := ?lo\<rparr>"
    using old [OF g] g by (simp add: linkStore_nth(2))
  have node1: "?st1 ! g
      = (if length (hd a) = d then zeroByteValue\<lparr>valid := True, bvalue := Get srcMap (hd a)\<rparr>
         else zeroByteValue)"
    using g z by (simp add: termStore_nth(2))
  show ?thesis
    unfolding mbvPost_def
  proof (intro conjI allI impI)
    fix j
    assume j: "j < length st" "j \<noteq> g"
    then show "st' ! j = st ! j"
      using old [of j] by (simp add: linkStore_nth(1) termStore_nth(1))
  next
    fix st'' :: "'a byteValue list"
    assume agree: "\<forall>j\<in>insert g {length st..<length st'}. j < length st'' \<and> st'' ! j = st' ! j"
    then have g'': "g < length st''" and ng: "st'' ! g = st' ! g"
      by simp_all
    have new: "j < length st'' \<and> st'' ! j = st' ! j" if "?L \<le> j" "j < length st'" for j
      using agree that by simp
    have fields: "nextOffset (st'' ! g) = ?off" "nextLen (st'' ! g) = ?n"
      "nextLo (st'' ! g) = ?lo" "valid (st'' ! g) = (length (hd a) = d)"
      "bvalue (st'' ! g) = (if length (hd a) = d then Get srcMap (hd a) else 0)"
      by (simp_all add: ng node node1 zeroByteValue_def)
    show "rep st'' g (kvsOf srcMap a d)"
    proof (rule repI)
      show "g < length st''" by (rule g'')
      show "valid (st'' ! g) = ([] \<in> fst ` set (kvsOf srcMap a d))"
        by (simp add: fields terminal_iff(1) [OF ok ne])
      show "bvalue (st'' ! g) = (case map_of (kvsOf srcMap a d) [] of Some v \<Rightarrow> v | None \<Rightarrow> 0)"
        by (simp add: fields terminal_iff(2) [OF ok ne])
      show "\<forall>k\<in>fst ` set (kvsOf srcMap a d). k \<noteq> [] \<longrightarrow>
          nextOffset (st'' ! g) \<le> hd k \<and> hd k - nextOffset (st'' ! g) < nextLen (st'' ! g)"
      proof (intro ballI impI)
        fix k
        assume "k \<in> fst ` set (kvsOf srcMap a d)" "k \<noteq> []"
        then obtain x where x: "x \<in> set a" "k = drop d x" "d < length x"
          by (auto simp: kvsOf_def)
        then have "x \<in> set ?a1"
          using ne by (cases a) (auto simp: restKeys_def)
        from sf(3,4) [OF this] x show
          "nextOffset (st'' ! g) \<le> hd k \<and> hd k - nextOffset (st'' ! g) < nextLen (st'' ! g)"
          by (simp add: fields hd_drop_conv_nth)
      qed
      show "\<forall>j<unat (nextLen (st'' ! g)).
          unat (nextLo (st'' ! g)) + j < length st'' \<and>
          rep st'' (unat (nextLo (st'' ! g)) + j)
            (subKvs (nextOffset (st'' ! g) + of_nat j) (kvsOf srcMap a d))"
      proof (intro allI impI)
        fix j
        assume "j < unat (nextLen (st'' ! g))"
        then have j: "j < unat ?n" by (simp add: fields)
        let ?c = "?off + of_nat j"
        from j len have jl: "?L + j < length st'" by simp
        note nj = new [OF _ jl]
        have uj: "unat (of_nat j :: byte) = j"
          using j by (rule span_slot(2))
        have sub: "subKvs ?c (kvsOf srcMap a d)
            = kvsOf srcMap (filter (\<lambda>k. k ! d = ?c) ?a1) (d + 1)"
          by (rule subKvs_kvsOf [OF ok ne])
        have "rep st'' (?L + j) (kvsOf srcMap (filter (\<lambda>k. k ! d = ?c) ?a1) (d + 1))"
        proof (cases "\<exists>k\<in>set ?a1. k ! d = ?c")
          case True
          then obtain k where k: "k \<in> set ?a1" "k ! d = ?c" by blast
          have "\<forall>j\<in>?slot ` set ?a1 \<union> {length ?st3..<length st'}.
              j < length st'' \<and> st'' ! j = st' ! j"
          proof
            fix j'
            assume "j' \<in> ?slot ` set ?a1 \<union> {length ?st3..<length st'}"
            then have "?L \<le> j'" "j' < length st'"
              using slot_ge [of j'] len by auto
            then show "j' < length st'' \<and> st'' ! j' = st' ! j'" by (rule new)
          qed
          from Q2 [OF this k(1)] sf(1) [OF k(1)] k(2) uj show ?thesis
            by simp
        next
          case False
          then have empty: "filter (\<lambda>k. k ! d = ?c) ?a1 = []"
            by (simp add: filter_empty_conv)
          have "?L + j \<notin> ?slot ` set ?a1"
          proof
            assume "?L + j \<in> ?slot ` set ?a1"
            then obtain k where k: "k \<in> set ?a1" "?L + j = ?slot k" by auto
            with sf(1) [OF k(1)] have "unat (k ! d - ?off) = unat (of_nat j :: byte)"
              by (simp add: uj)
            then have "k ! d - ?off = of_nat j"
              by (simp only: word_unat_eq_iff)
            then have "k ! d = ?c"
              by (metis add.commute diff_add_cancel)
            with False k(1) show False by blast
          qed
          with j have "st' ! (?L + j) = ?st3 ! (?L + j)"
            by (intro Q1) simp_all
          also have "\<dots> = zeroByteValue"
            using j by (intro linkStore_nth(3)) simp_all
          finally have "st'' ! (?L + j) = zeroByteValue"
            using nj by simp
          with nj show ?thesis
            by (simp add: empty kvsOf_def rep_zero)
        qed
        with nj show "unat (nextLo (st'' ! g)) + j < length st'' \<and>
          rep st'' (unat (nextLo (st'' ! g)) + j)
            (subKvs (nextOffset (st'' ! g) + of_nat j) (kvsOf srcMap a d))"
          by (simp add: fields lo sub)
      qed
    qed
  qed
qed

lemma U_correct:
  shows "Uint32Store_makeByteValue st g a d srcMap = Inr st' \<Longrightarrow> g < length st \<Longrightarrow>
         st ! g = zeroByteValue \<Longrightarrow> keysOk a d \<Longrightarrow> length st' < 2 ^ 32 \<Longrightarrow>
         mbvPost srcMap st g a d st'"
    and "Uint32Store_makeByteValue_loop st1 lo off a1 d1 srcMap i = Inr st' \<Longrightarrow>
         keysOk1 (drop i a1) d1 \<Longrightarrow> slotsFresh st1 lo off (drop i a1) d1 \<Longrightarrow>
         length st' < 2 ^ 32 \<Longrightarrow> loopPost srcMap st1 lo off (drop i a1) d1 st'"
proof (induction st g a d and st1 lo off a1 d1 i arbitrary: st' and st'
    rule: U_induct [where srcMap = srcMap])
  case (loop st lo off a d i)
  from loop.prems(1) show ?case
  proof (cases rule: U_loop_InrE)
    case stop
    then show ?thesis
      by (simp add: loopPost_def)
  next
    case (step hi st1)
    let ?slot = "slotOf lo off d (a ! i)"
    let ?run = "take (hi - i) (drop i a)"
    note sp = sameByteHi_split [OF step(3) step(1) loop.prems(2)]
    note len = U_length_mono(1) [OF step(5)] U_length_mono(2) [OF step(6)]
    have ai: "a ! i \<in> set (drop i a)"
      using step(1) by (simp add: Cons_nth_drop_Suc [symmetric])
    note slot = slotsFreshD(1,2) [OF loop.prems(3) ai]
    have run_ok: "keysOk ?run (d + 1)"
      by (rule keysOk1_same_byte [OF keysOk1_take [OF loop.prems(2)] sp(4)])
    have b1: "length st1 < 2 ^ 32"
      using len(2) loop.prems(4) by simp
    have P: "mbvPost srcMap st ?slot ?run (d + 1) st1"
      by (rule loop.IH(1) [OF step(1-5) slot run_ok b1])
    have sub: "set (drop hi a) \<subseteq> set (drop i a)"
      using sp(1) by (intro set_drop_subset_set_drop) simp
    have ok': "keysOk1 (drop hi a) d"
      using keysOk1_drop [OF loop.prems(2), of "hi - i"] sp(1) by simp
    have fresh': "slotsFresh st1 lo off (drop hi a) d"
      unfolding slotsFresh_def
    proof (intro conjI ballI impI)
      fix k
      assume k: "k \<in> set (drop hi a)"
      with sub have ki: "k \<in> set (drop i a)" by blast
      note kk = slotsFreshD(1,2) [OF loop.prems(3) ki]
      from kk(1) len(1) show "slotOf lo off d k < length st1" by simp
      have "slotOf lo off d k \<noteq> ?slot"
      proof
        assume "slotOf lo off d k = ?slot"
        from slotsFreshD(3) [OF loop.prems(3) ki ai this] sp(5) k show False by blast
      qed
      from mbvPost_frame [OF P kk(1) this] kk(2) show "st1 ! slotOf lo off d k = zeroByteValue"
        by simp
    next
      fix k k'
      assume "k \<in> set (drop hi a)" "k' \<in> set (drop hi a)"
        "slotOf lo off d k = slotOf lo off d k'"
      with sub slotsFreshD(3) [OF loop.prems(3), of k k'] show "k ! d = k' ! d"
        by blast
    qed
    have Q: "loopPost srcMap st1 lo off (drop hi a) d st'"
      by (rule loop.IH(2) [OF step(1-5) step(6) ok' fresh' loop.prems(4)])
    show ?thesis
      by (rule loop_step_post [OF step(3) step(1) loop.prems(2,3) len P Q])
  qed
next
  case (mbv st g a d)
  from mbv.prems(1) show ?case
  proof (cases rule: U_mbv_InrE)
    case leaf
    from mbv_leaf_post [OF mbv.prems(2-4) leaf(1,2)] leaf(3) show ?thesis
      by simp
  next
    case inner
    let ?a1 = "restKeys a d"
    let ?st3 = "linkStore (termStore st g a d srcMap) g ?a1 d"
    have ok1: "keysOk1 ?a1 d"
      by (rule keysOk_restKeys [OF mbv.prems(4) inner(1)])
    have len3: "length ?st3 = length st + unat (spanLen ?a1 d)"
      by simp
    from U_length_mono(2) [OF inner(5)] have len: "length st + unat (spanLen ?a1 d) \<le> length st'"
      by simp
    with mbv.prems(5) have L: "length st < 2 ^ 32" "length st + unat (spanLen ?a1 d) < 2 ^ 32"
      by simp_all
    have nz: "spanLen ?a1 d \<noteq> 0"
      by (rule spanLen_nonzero [OF inner(5,2) len3 L(1)])
    have fresh: "slotsFresh ?st3 (of_nat (length st)) (hd ?a1 ! d) (drop 0 ?a1) d"
      using fresh_after_link [OF ok1 nz, of "termStore st g a d srcMap" g] L(2) by simp
    from ok1 have ok0: "keysOk1 (drop 0 ?a1) d" by simp
    from mbv.IH [OF inner(1-4) inner(5) ok0 fresh mbv.prems(5)]
    have Q: "loopPost srcMap ?st3 (of_nat (length st)) (hd ?a1 ! d) ?a1 d st'"
      by simp
    show ?thesis
      by (rule mbv_inner_post [OF mbv.prems(2-4) inner(1,2) nz mbv.prems(5) len Q])
  qed
qed

text \<open>
  C8 (empty source). A source that enumerates no keys is built without a panic into an
  array of exactly one node, the root, which is not terminal and has no children; every
  lookup on it, by string or by bytes, reports absence. The same holds for
  \<^verbatim>\<open>NewUint32Store\<close>.
\<close>

theorem empty_source:
  assumes "AppendKeys srcMap [] = []"
  shows "\<exists>m. NewMap srcMap = Inr m \<and> NewUint32Store srcMap = Inr m \<and>
           length (store m) = 1 \<and> \<not> valid (store m ! 0) \<and> nextLen (store m ! 0) = 0 \<and>
           (\<forall>q. LookupString m q = Inr (0, False) \<and> LookupBytes m q = Inr (0, False) \<and>
                Uint32Store_LookupString m q = Inr (0, False) \<and>
                Uint32Store_LookupBytes m q = Inr (0, False))"
proof -
  let ?m = "\<lparr>store = [zeroByteValue :: 'a byteValue]\<rparr>"
  have walk: "Uint32Store_LookupBytes_loop [zeroByteValue :: 'a byteValue] q 0 = Inr (0, False)" for q
    by (rule walk_zero) simp
  have "NewMap srcMap = Inr ?m" "NewUint32Store srcMap = Inr ?m"
    using assms by (simp_all add: NewMap_def NewUint32Store_def)
  moreover have "length (store ?m) = 1" "\<not> valid (store ?m ! 0)" "nextLen (store ?m ! 0) = 0"
    by (simp_all add: zeroByteValue_def)
  moreover have "LookupString ?m q = Inr (0, False)" "LookupBytes ?m q = Inr (0, False)"
    "Uint32Store_LookupString ?m q = Inr (0, False)"
    "Uint32Store_LookupBytes ?m q = Inr (0, False)" for q
    by (simp_all add: LookupString_def LookupBytes_def Uint32Store_LookupString_def
        Uint32Store_LookupBytes_def LookupString_loop_drop LookupBytes_loop_drop
        Uint32Store_LookupString_loop_drop walk)
  ultimately show ?thesis by blast
qed

theorem empty_source_witness:
  "AppendKeys \<lparr>AppendKeys = (\<lambda>a. a), Get = (\<lambda>k. 0 :: uint32)\<rparr> [] = [] \<and>
   (\<exists>m. NewMap \<lparr>AppendKeys = (\<lambda>a. a), Get = (\<lambda>k. 0 :: uint32)\<rparr> = Inr m \<and>
        LookupString m [107, 101, 121] = Inr (0, False))"
  using empty_source [of "\<lparr>AppendKeys = (\<lambda>a. a), Get = (\<lambda>k. 0 :: uint32)\<rparr>"] by auto

text \<open>
  C9 (string/byte-sequence equivalence). On every structure, looking a key up as a string
  gives the same result, value and flag or panic, as looking up the slice of its bytes;
  this holds for the flat array, the derived array and \<^verbatim>\<open>Uint32Store\<close>.
\<close>

theorem string_bytes_equivalence:
  "LookupString m k = LookupBytes m k \<and>
   MapFaster_LookupString f k = MapFaster_LookupBytes f k \<and>
   Uint32Store_LookupString m k = Uint32Store_LookupBytes m k"
  by (simp add: LookupString_def LookupBytes_def MapFaster_LookupString_def
      MapFaster_LookupBytes_def Uint32Store_LookupString_def Uint32Store_LookupBytes_def
      LookupString_loop_drop LookupBytes_loop_drop Uint32Store_LookupString_loop_drop
      MapFaster_loops_eq)

section \<open>The block builder and the single array\<close>

definition termB :: "'v::zero builder \<Rightarrow> ptr \<Rightarrow> key list \<Rightarrow> nat \<Rightarrow> 'v builder" where
  "termB b p a d =
     (if length (hd a) = d
      then assign b p ((deref b p)\<lparr>valid := True, bvalue := Get (src b) (hd a)\<rparr>) else b)"

definition linkB :: "'v::zero builder \<Rightarrow> ptr \<Rightarrow> key list \<Rightarrow> nat \<Rightarrow> 'v builder" where
  "linkB b1 p a1 d =
     assign b1 p ((deref b1 p)\<lparr>nextOffset := hd a1 ! d, nextLen := spanLen a1 d,
                                 nextLo := of_nat (len b1)\<rparr>)"

definition slicePtr :: "bslice \<Rightarrow> nat \<Rightarrow> ptr" where
  "slicePtr nxt j = (fst nxt, fst (snd nxt) + j)"

lemma G_mbv_unfold:
  "makeByteValue b p a d =
     (if a = [] then Inl IndexOutOfRange
      else if restKeys a d = [] then Inr (termB b p a d)
      else if \<not> d < length (hd (restKeys a d)) \<or> \<not> d < length (last (restKeys a d))
      then Inl IndexOutOfRange
      else
        (case alloc (linkB (termB b p a d) p (restKeys a d) d) (spanLen (restKeys a d) d) of
           Inl e \<Rightarrow> Inl e
         | Inr (b3, nxt) \<Rightarrow>
             makeByteValue_loop b3 nxt (hd (restKeys a d) ! d) (restKeys a d) d 0))"
  by (subst makeByteValue.simps)
    (simp add: Let_def hd_conv_nth last_conv_nth termB_def restKeys_def linkB_def spanLen_def
      split: sum.split prod.split)

lemma G_loop_unfold:
  "makeByteValue_loop b nxt off a d i =
     (if i < length a then
        (if \<not> d < length (a ! i) then Inl IndexOutOfRange
         else
           (case sameByteHi a d i (i + 1) of
              Inl e \<Rightarrow> Inl e
            | Inr hi \<Rightarrow>
                if \<not> unat (a ! i ! d - off) < snd (snd nxt) then Inl IndexOutOfRange
                else
                  (case makeByteValue b (slicePtr nxt (unat (a ! i ! d - off)))
                          (take (hi - i) (drop i a)) (d + 1) of
                     Inl e \<Rightarrow> Inl e
                   | Inr b' \<Rightarrow> makeByteValue_loop b' nxt off a d hi)))
      else Inr b)"
  by (subst makeByteValue_loop.simps) (simp add: Let_def slicePtr_def split: sum.split)

lemma G_mbv_InrE:
  assumes "makeByteValue b p a d = Inr b'"
  obtains (leaf) "a \<noteq> []" "restKeys a d = []" "b' = termB b p a d"
  | (inner) b3 nxt where "a \<noteq> []" "restKeys a d \<noteq> []" "d < length (hd (restKeys a d))"
      "d < length (last (restKeys a d))"
      "alloc (linkB (termB b p a d) p (restKeys a d) d) (spanLen (restKeys a d) d) = Inr (b3, nxt)"
      "makeByteValue_loop b3 nxt (hd (restKeys a d) ! d) (restKeys a d) d 0 = Inr b'"
  using assms by (subst (asm) G_mbv_unfold) (auto split: if_splits sum.splits)

lemma G_loop_InrE:
  assumes "makeByteValue_loop b nxt off a d i = Inr b'"
  obtains (stop) "\<not> i < length a" "b' = b"
  | (step) hi b1 where "i < length a" "d < length (a ! i)" "sameByteHi a d i (i + 1) = Inr hi"
      "unat (a ! i ! d - off) < snd (snd nxt)"
      "makeByteValue b (slicePtr nxt (unat (a ! i ! d - off))) (take (hi - i) (drop i a)) (d + 1)
         = Inr b1"
      "makeByteValue_loop b1 nxt off a d hi = Inr b'"
  using assms by (subst (asm) G_loop_unfold) (auto split: if_splits sum.splits)

lemma G_induct [case_names mbv loop]:
  assumes "\<And>b p a d.
      (\<And>b3 nxt. a \<noteq> [] \<Longrightarrow> restKeys a d \<noteq> [] \<Longrightarrow> d < length (hd (restKeys a d)) \<Longrightarrow>
         d < length (last (restKeys a d)) \<Longrightarrow>
         alloc (linkB (termB b p a d) p (restKeys a d) d) (spanLen (restKeys a d) d) = Inr (b3, nxt) \<Longrightarrow>
         Q b3 nxt (hd (restKeys a d) ! d) (restKeys a d) d 0) \<Longrightarrow> P b p a d"
    and "\<And>b nxt off a d i.
      (\<And>hi. i < length a \<Longrightarrow> d < length (a ! i) \<Longrightarrow> sameByteHi a d i (i + 1) = Inr hi \<Longrightarrow>
         unat (a ! i ! d - off) < snd (snd nxt) \<Longrightarrow>
         P b (slicePtr nxt (unat (a ! i ! d - off))) (take (hi - i) (drop i a)) (d + 1)) \<Longrightarrow>
      (\<And>hi b'. i < length a \<Longrightarrow> d < length (a ! i) \<Longrightarrow> sameByteHi a d i (i + 1) = Inr hi \<Longrightarrow>
         unat (a ! i ! d - off) < snd (snd nxt) \<Longrightarrow>
         makeByteValue b (slicePtr nxt (unat (a ! i ! d - off))) (take (hi - i) (drop i a)) (d + 1)
           = Inr b' \<Longrightarrow>
         Q b' nxt off a d hi) \<Longrightarrow> Q b nxt off a d i"
  shows "P b p a d" and "Q b' nxt off a' d' i"
proof (induction b p a d and b' nxt off a' d' i rule: makeByteValue_makeByteValue_loop.induct)
  case (1 b p a d)
  show ?case
  proof (rule assms(1))
    fix b3 nxt
    assume a: "a \<noteq> []" "restKeys a d \<noteq> []" "d < length (hd (restKeys a d))"
      "d < length (last (restKeys a d))"
      "alloc (linkB (termB b p a d) p (restKeys a d) d) (spanLen (restKeys a d) d) = Inr (b3, nxt)"
    show "Q b3 nxt (hd (restKeys a d) ! d) (restKeys a d) d 0"
      using a
      by (intro 1 [where xa = "termB b p a d" and y = "restKeys a d" and ba = "(b3, nxt)",
            OF _ refl])
        (simp_all add: termB_def restKeys_def linkB_def spanLen_def hd_conv_nth last_conv_nth)
  qed
next
  case (2 b nxt off a d i)
  show ?case
    by (rule assms(2)) (use 2 in \<open>simp_all add: slicePtr_def\<close>)
qed

end
